theory Spec2Isabelle
  imports Main "HOL-Library.Word" "HOL-Library.Monad_Syntax"
begin

unbundle bit_operations_syntax

section \<open>Data model of FileCompressor.js\<close>

text \<open>
  Bytes are 8-bit words and the contents of an ArrayBuffer or Uint8Array is a list of them.
  JavaScript numbers that hold sizes, offsets and counts are natural numbers (they stay far
  below \<open>2 ^ 53\<close>, where the doubles are exact); the truncation to 16 or 32 bits happens
  where the source calls a DataView setter, and is written out there. The operands of the
  bitwise operators of \<open>#calculateCRC32\<close> are 32-bit words: every one of \<open>&\<close>,
  \<open>^\<close> and \<open>>>>\<close> first converts its operands to 32 bits, so only the bit pattern
  matters. A JavaScript string is its list of UTF-16 code units.
\<close>

type_synonym byte = "8 word"
type_synonym bytes = "byte list"
type_synonym u32 = "32 word"
type_synonym jsstring = "16 word list"

text \<open>A File: its name and its content, fully in memory.\<close>

record File =
  name :: jsstring
  data :: bytes

text \<open>A Blob keeps the parts it was built from; its bytes are their concatenation.\<close>

record Blob =
  blobParts :: "bytes list"
  type :: string

definition arrayBuffer :: "Blob \<Rightarrow> bytes" where
  "arrayBuffer b = concat (blobParts b)"

text \<open>
  What a call can throw: the error \<open>e\<close> with which the compression stream failed, or the
  RangeError of a typed-array or DataView access outside its buffer.
\<close>

datatype 'e error = StreamError 'e | RangeError

text \<open>
  The readable side of a stream: the chunks it delivers, then either the end of the stream
  or an error.
\<close>

datatype 'e stream = Stream "bytes list" "'e option"

text \<open>
  \<open>new CompressionStream('deflate')\<close> belongs to the platform, not to this repository: it
  is a parameter. Writing a buffer to it and closing it gives the readable side; \<open>'w\<close> is
  the state of the platform, which every use of the transform may read and change.
\<close>

type_synonym ('w, 'e) compressionStream = "'w \<Rightarrow> bytes \<Rightarrow> 'e stream \<times> 'w"

section \<open>Private helpers\<close>

text \<open>\<open>#streamToBlob\<close>: read until done, collect the chunks; an error is rethrown.\<close>

fun streamToBlob :: "'e stream \<Rightarrow> 'e error + Blob" where
  "streamToBlob (Stream chunks None) = Inr \<lparr>blobParts = chunks, type = ''''\<rparr>"
| "streamToBlob (Stream chunks (Some err)) = Inl (StreamError err)"

text \<open>
  \<open>#writeUint16\<close> and \<open>#writeUint32\<close>: \<open>view.setUint16(offset, value, true)\<close> stores
  the low 16 bits of the value, low byte first, and throws a RangeError when the field
  does not fit the view (\<open>None\<close>).
\<close>

definition writeUint16 :: "bytes \<Rightarrow> nat \<Rightarrow> nat \<Rightarrow> bytes option" where
  "writeUint16 view off v =
     (if off + 2 \<le> length view
      then Some (view[off := of_nat v, off + 1 := of_nat (v div 256)])
      else None)"

definition writeUint32 :: "bytes \<Rightarrow> nat \<Rightarrow> nat \<Rightarrow> bytes option" where
  "writeUint32 view off v =
     (if off + 4 \<le> length view
      then Some (view[off := of_nat v, off + 1 := of_nat (v div 256),
                      off + 2 := of_nat (v div 65536), off + 3 := of_nat (v div 16777216)])
      else None)"

text \<open>\<open>new Uint8Array(buffer, off).set(src)\<close>: copy \<open>src\<close> into the buffer from \<open>off\<close>.\<close>

definition setBytes :: "bytes \<Rightarrow> nat \<Rightarrow> bytes \<Rightarrow> bytes option" where
  "setBytes buffer off src =
     (if off \<le> length buffer \<and> length src \<le> length buffer - off
      then Some (take off buffer @ src @ drop (off + length src) buffer)
      else None)"

text \<open>
  The DataView getters, with the flag \<open>littleEndian\<close>. The source calls
  \<open>getUint32(0, false)\<close> on the Adler-32 trailer; the theorems use the getters to read
  the fields of the headers back.
\<close>

definition getUint16 :: "bytes \<Rightarrow> nat \<Rightarrow> bool \<Rightarrow> nat option" where
  "getUint16 view off littleEndian =
     (if off + 2 \<le> length view
      then Some (if littleEndian
                 then unat (view ! off) + 256 * unat (view ! (off + 1))
                 else 256 * unat (view ! off) + unat (view ! (off + 1)))
      else None)"

definition getUint32 :: "bytes \<Rightarrow> nat \<Rightarrow> bool \<Rightarrow> nat option" where
  "getUint32 view off littleEndian =
     (if off + 4 \<le> length view
      then Some (if littleEndian
                 then unat (view ! off) + 256 * unat (view ! (off + 1))
                      + 65536 * unat (view ! (off + 2)) + 16777216 * unat (view ! (off + 3))
                 else 16777216 * unat (view ! off) + 65536 * unat (view ! (off + 1))
                      + 256 * unat (view ! (off + 2)) + unat (view ! (off + 3)))
      else None)"

text \<open>\<open>buffer.slice(begin, end)\<close> for indices that are not negative.\<close>

definition slice :: "bytes \<Rightarrow> nat \<Rightarrow> nat \<Rightarrow> bytes" where
  "slice buffer b e = take (e - b) (drop b buffer)"

text \<open>
  \<open>#encodeFilename\<close> is \<open>new TextEncoder().encode\<close>: the UTF-8 encoding of the string,
  where a surrogate pair is one code point and a lone surrogate becomes U+FFFD.
\<close>

definition utf8 :: "nat \<Rightarrow> bytes" where
  "utf8 cp =
     (if cp < 0x80 then [of_nat cp]
      else if cp < 0x800 then [of_nat (0xC0 + cp div 64), of_nat (0x80 + cp mod 64)]
      else if cp < 0x10000
        then [of_nat (0xE0 + cp div 4096), of_nat (0x80 + cp div 64 mod 64),
              of_nat (0x80 + cp mod 64)]
      else [of_nat (0xF0 + cp div 262144), of_nat (0x80 + cp div 4096 mod 64),
            of_nat (0x80 + cp div 64 mod 64), of_nat (0x80 + cp mod 64)])"

definition highSurrogate :: "16 word \<Rightarrow> bool" where
  "highSurrogate c = (0xD800 \<le> unat c \<and> unat c < 0xDC00)"

definition lowSurrogate :: "16 word \<Rightarrow> bool" where
  "lowSurrogate c = (0xDC00 \<le> unat c \<and> unat c < 0xE000)"

fun textEncode :: "jsstring \<Rightarrow> bytes" where
  "textEncode [] = []"
| "textEncode [c] =
     (if highSurrogate c \<or> lowSurrogate c then utf8 0xFFFD else utf8 (unat c))"
| "textEncode (c # d # s) =
     (if highSurrogate c \<and> lowSurrogate d
        then utf8 (0x10000 + (unat c - 0xD800) * 1024 + (unat d - 0xDC00)) @ textEncode s
      else if highSurrogate c \<or> lowSurrogate c then utf8 0xFFFD @ textEncode (d # s)
      else utf8 (unat c) @ textEncode (d # s))"

definition encodeFilename :: "jsstring \<Rightarrow> bytes" where
  "encodeFilename filename = textEncode filename"

section \<open>The CRC-32 of \<open>#calculateCRC32\<close>\<close>

text \<open>The body of the inner loop that fills the table, run 8 times for each index.\<close>

definition crcTableStep :: "u32 \<Rightarrow> u32" where
  "crcTableStep crc =
     (if crc AND 1 \<noteq> 0 then drop_bit 1 crc XOR 0xEDB88320 else drop_bit 1 crc)"

definition crcTable :: "u32 list" where
  "crcTable = map (\<lambda>i. (crcTableStep ^^ 8) (of_nat i)) [0..<256]"

text \<open>The loop over the bytes, from the register \<open>crc\<close>.\<close>

fun crcLoop :: "u32 \<Rightarrow> bytes \<Rightarrow> u32" where
  "crcLoop crc [] = crc"
| "crcLoop crc (b # bs) =
     crcLoop (drop_bit 8 crc XOR crcTable ! unat ((crc XOR ucast b) AND 0xFF)) bs"

definition calculateCRC32 :: "bytes \<Rightarrow> u32" where
  "calculateCRC32 d = crcLoop 0xFFFFFFFF d XOR 0xFFFFFFFF"

text \<open>
  The reference the specification names: the reflected CRC-32 computed bit by bit. The
  register starts at \<open>0xFFFFFFFF\<close>; each byte is XORed into its low end and the register
  is shifted right 8 times, XORing the polynomial \<open>0xEDB88320\<close> in whenever the bit shifted
  out is set; the result is the register XOR \<open>0xFFFFFFFF\<close>.
\<close>

definition refBit :: "u32 \<Rightarrow> u32" where
  "refBit r = (if bit r 0 then drop_bit 1 r XOR 0xEDB88320 else drop_bit 1 r)"

definition refByte :: "u32 \<Rightarrow> byte \<Rightarrow> u32" where
  "refByte r b = (refBit ^^ 8) (r XOR ucast b)"

definition crc32Reference :: "bytes \<Rightarrow> u32" where
  "crc32Reference bs = foldl refByte 0xFFFFFFFF bs XOR 0xFFFFFFFF"

section \<open>Strings of hexadecimal digits\<close>

text \<open>
  \<open>adler32.toString(16)\<close> for a number that is a natural number: its digits in base 16,
  in lower case, with no leading zero; and \<open>s.padStart(targetLength, c)\<close> for a filler
  \<open>c\<close> of one code unit.
\<close>

definition hexDigit :: "nat \<Rightarrow> 16 word" where
  "hexDigit d = (if d < 10 then of_nat (48 + d) else of_nat (87 + d))"

fun toString16 :: "nat \<Rightarrow> jsstring" where
  "toString16 n =
     (if n < 16 then [hexDigit n] else toString16 (n div 16) @ [hexDigit (n mod 16)])"

declare toString16.simps [simp del]

definition padStart :: "jsstring \<Rightarrow> nat \<Rightarrow> 16 word \<Rightarrow> jsstring" where
  "padStart s targetLength c = replicate (targetLength - length s) c @ s"

section \<open>The archive builder \<open>#createZipFromFiles\<close>\<close>

text \<open>
  The three buffers the builder fills. Each starts as \<open>new ArrayBuffer(size)\<close>, all
  zero, and is written field by field through a DataView, in the order of the source.
\<close>

definition makeLocalHeader :: "bytes \<Rightarrow> nat \<Rightarrow> nat \<Rightarrow> nat \<Rightarrow> bytes option" where
  "makeLocalHeader filenameBytes crc32 compressedSize uncompressedSize = do {
     let localHeaderSize = 30 + length filenameBytes;
     let localView = replicate localHeaderSize 0;
     localView \<leftarrow> writeUint32 localView 0 0x04034b50;
     localView \<leftarrow> writeUint16 localView 4 20;
     localView \<leftarrow> writeUint16 localView 6 0;
     localView \<leftarrow> writeUint16 localView 8 8;
     localView \<leftarrow> writeUint16 localView 10 0;
     localView \<leftarrow> writeUint32 localView 14 crc32;
     localView \<leftarrow> writeUint32 localView 18 compressedSize;
     localView \<leftarrow> writeUint32 localView 22 uncompressedSize;
     localView \<leftarrow> writeUint16 localView 26 (length filenameBytes);
     localView \<leftarrow> writeUint16 localView 28 0;
     setBytes localView 30 filenameBytes
   }"

definition makeCentralHeader ::
  "bytes \<Rightarrow> bytes \<Rightarrow> nat \<Rightarrow> nat \<Rightarrow> nat \<Rightarrow> nat \<Rightarrow> bytes option" where
  "makeCentralHeader filenameBytes commentBytes crc32 compressedSize uncompressedSize off = do {
     let centralHeaderSize = 46 + length filenameBytes + length commentBytes;
     let centralView = replicate centralHeaderSize 0;
     centralView \<leftarrow> writeUint32 centralView 0 0x02014b50;
     centralView \<leftarrow> writeUint16 centralView 4 20;
     centralView \<leftarrow> writeUint16 centralView 6 20;
     centralView \<leftarrow> writeUint16 centralView 8 0;
     centralView \<leftarrow> writeUint16 centralView 10 8;
     centralView \<leftarrow> writeUint16 centralView 12 0;
     centralView \<leftarrow> writeUint16 centralView 14 0;
     centralView \<leftarrow> writeUint32 centralView 16 crc32;
     centralView \<leftarrow> writeUint32 centralView 20 compressedSize;
     centralView \<leftarrow> writeUint32 centralView 24 uncompressedSize;
     centralView \<leftarrow> writeUint16 centralView 28 (length filenameBytes);
     centralView \<leftarrow> writeUint16 centralView 30 0;
     centralView \<leftarrow> writeUint16 centralView 32 (length commentBytes);
     centralView \<leftarrow> writeUint16 centralView 34 0;
     centralView \<leftarrow> writeUint16 centralView 36 0;
     centralView \<leftarrow> writeUint32 centralView 38 0;
     centralView \<leftarrow> writeUint32 centralView 42 off;
     centralView \<leftarrow> setBytes centralView 46 filenameBytes;
     setBytes centralView (46 + length filenameBytes) commentBytes
   }"

definition makeEndOfCentralDir :: "nat \<Rightarrow> nat \<Rightarrow> nat \<Rightarrow> bytes option" where
  "makeEndOfCentralDir filesLength centralDirSize centralDirStart = do {
     let endView = replicate 22 0;
     endView \<leftarrow> writeUint32 endView 0 0x06054b50;
     endView \<leftarrow> writeUint16 endView 4 0;
     endView \<leftarrow> writeUint16 endView 6 0;
     endView \<leftarrow> writeUint16 endView 8 filesLength;
     endView \<leftarrow> writeUint16 endView 10 filesLength;
     endView \<leftarrow> writeUint32 endView 12 centralDirSize;
     endView \<leftarrow> writeUint32 endView 16 centralDirStart;
     writeUint16 endView 20 0
   }"

text \<open>The variables that live across the iterations of the loop over the files.\<close>

record zipState =
  parts :: "bytes list"
  centralHeaders :: "bytes list"
  adler32Map :: "jsstring \<rightharpoonup> nat"
  offset :: nat

text \<open>
  The \<open>try\<close> block of the loop: the buffer goes through a fresh compression stream,
  whose readable side \<open>#streamToBlob\<close> drains; the bytes of the blob are the compressed
  view. On an error the \<open>catch\<close> logs and rethrows.
\<close>

definition compressBuffer ::
  "('w, 'e) compressionStream \<Rightarrow> 'w \<Rightarrow> bytes \<Rightarrow> ('e error + bytes) \<times> 'w" where
  "compressBuffer cs w fileDataBuffer =
     (case cs w fileDataBuffer of
        (readable, w') \<Rightarrow>
          (case streamToBlob readable of
             Inl err \<Rightarrow> (Inl err, w')
           | Inr compressedBlob \<Rightarrow> (Inr (arrayBuffer compressedBlob), w')))"

text \<open>
  The rest of the body of the loop, for one file and its compressed view: the zlib
  wrapper is detected and stripped, the Adler-32 goes into the map under the name of the
  file, the local header and the data are pushed, the central header is kept for later,
  and the offset advances. \<open>adler32Map.get(file.name) || 0\<close> is the value stored under
  the name, and 0 when there is none.
\<close>

definition addEntry :: "File \<Rightarrow> bytes \<Rightarrow> zipState \<Rightarrow> zipState option" where
  "addEntry file compressedView st = do {
     let filenameBytes = encodeFilename (name file);
     let fileDataBuffer = data file;
     let crc32 = unat (calculateCRC32 fileDataBuffer);
     (adler32Map', compressedData) \<leftarrow>
       (if 6 \<le> length compressedView \<and> compressedView ! 0 = 0x78
        then do {
          adler32 \<leftarrow> getUint32 (drop (length compressedView - 4) compressedView) 0 False;
          Some ((adler32Map st)(name file \<mapsto> adler32),
                slice compressedView 2 (length compressedView - 4))
        }
        else Some (adler32Map st, compressedView));
     let compressedSize = length compressedData;
     let uncompressedSize = length fileDataBuffer;
     let localHeaderSize = 30 + length filenameBytes;
     localHeader \<leftarrow> makeLocalHeader filenameBytes crc32 compressedSize uncompressedSize;
     let adler32 = (case adler32Map' (name file) of None \<Rightarrow> 0 | Some a \<Rightarrow> a);
     let adler32Hex = padStart (toString16 adler32) 8 0x30;
     let commentBytes = textEncode adler32Hex;
     centralHeader \<leftarrow>
       makeCentralHeader filenameBytes commentBytes crc32 compressedSize uncompressedSize
         (offset st);
     Some \<lparr>parts = parts st @ [localHeader, compressedData],
           centralHeaders = centralHeaders st @ [centralHeader],
           adler32Map = adler32Map',
           offset = offset st + (localHeaderSize + compressedSize)\<rparr>
   }"

text \<open>The loop \<open>for (const file of files)\<close>; a throw in the body ends the call.\<close>

fun zipLoop ::
  "('w, 'e) compressionStream \<Rightarrow> File list \<Rightarrow> zipState \<Rightarrow> 'w
   \<Rightarrow> ('e error + zipState) \<times> 'w" where
  "zipLoop cs [] st w = (Inr st, w)"
| "zipLoop cs (file # files) st w =
     (case compressBuffer cs w (data file) of
        (Inl err, w') \<Rightarrow> (Inl err, w')
      | (Inr compressedView, w') \<Rightarrow>
          (case addEntry file compressedView st of
             None \<Rightarrow> (Inl RangeError, w')
           | Some st' \<Rightarrow> zipLoop cs files st' w'))"

definition createZipFromFiles ::
  "('w, 'e) compressionStream \<Rightarrow> 'w \<Rightarrow> File list \<Rightarrow> ('e error + Blob) \<times> 'w" where
  "createZipFromFiles cs w files =
     (case zipLoop cs files
             \<lparr>parts = [], centralHeaders = [], adler32Map = Map.empty, offset = 0\<rparr> w of
        (Inl err, w') \<Rightarrow> (Inl err, w')
      | (Inr st, w') \<Rightarrow>
          (let centralDirStart = offset st;
               centralDirSize = foldl (\<lambda>sum h. sum + length h) 0 (centralHeaders st);
               parts' = parts st @ centralHeaders st
           in case makeEndOfCentralDir (length files) centralDirSize centralDirStart of
                None \<Rightarrow> (Inl RangeError, w')
              | Some endOfCentralDir \<Rightarrow>
                  (Inr \<lparr>blobParts = parts' @ [endOfCentralDir], type = ''application/zip''\<rparr>,
                   w')))"

section \<open>The single file path and the public \<open>compress\<close>\<close>

definition compressSingleFile ::
  "('w, 'e) compressionStream \<Rightarrow> 'w \<Rightarrow> File \<Rightarrow> ('e error + Blob) \<times> 'w" where
  "compressSingleFile cs w file =
     (case cs w (data file) of (compressedFileStream, w') \<Rightarrow>
        (streamToBlob compressedFileStream, w'))"

text \<open>The argument of \<open>compress\<close>: an array of files, or one file.\<close>

datatype input = FileArray "File list" | SingleFile File

fun compress ::
  "('w, 'e) compressionStream \<Rightarrow> 'w \<Rightarrow> input \<Rightarrow> ('e error + Blob) \<times> 'w" where
  "compress cs w (FileArray files) = createZipFromFiles cs w files"
| "compress cs w (SingleFile file) = compressSingleFile cs w file"

section \<open>The layout of the archive\<close>

text \<open>
  The notions in which the theorems describe what the builder produces: the encoding of
  a field, the test for the zlib wrapper with the trailer and the payload of a wrapped
  stream, the values the loop derives for each entry (the CompressedEntry of the
  specification), and the byte layout of the two headers and of the end record.
\<close>

definition le16 :: "nat \<Rightarrow> bytes" where
  "le16 v = [of_nat v, of_nat (v div 256)]"

definition le32 :: "nat \<Rightarrow> bytes" where
  "le32 v = [of_nat v, of_nat (v div 256), of_nat (v div 65536), of_nat (v div 16777216)]"

definition zlibWrapped :: "bytes \<Rightarrow> bool" where
  "zlibWrapped compressedView = (6 \<le> length compressedView \<and> compressedView ! 0 = 0x78)"

definition adler32Trailer :: "bytes \<Rightarrow> nat" where
  "adler32Trailer compressedView =
     (let n = length compressedView
      in 16777216 * unat (compressedView ! (n - 4)) + 65536 * unat (compressedView ! (n - 3))
         + 256 * unat (compressedView ! (n - 2)) + unat (compressedView ! (n - 1)))"

definition rawDeflate :: "bytes \<Rightarrow> bytes" where
  "rawDeflate compressedView =
     (if zlibWrapped compressedView
      then take (length compressedView - 6) (drop 2 compressedView)
      else compressedView)"

record CompressedEntry =
  nameBytes :: bytes
  crc32 :: nat
  adler32 :: nat
  compressedData :: bytes
  uncompressedSize :: nat
  localOffset :: nat

text \<open>
  The map after the body of the loop has run for file \<open>f\<close> with the compressed view
  \<open>cv\<close>, and the values of the entry: the Adler-32 is looked up in that map under
  the name of the file.
\<close>

definition mapAfter :: "(jsstring \<rightharpoonup> nat) \<Rightarrow> File \<Rightarrow> bytes \<Rightarrow> (jsstring \<rightharpoonup> nat)" where
  "mapAfter m f cv = (if zlibWrapped cv then m(name f \<mapsto> adler32Trailer cv) else m)"

definition entryOf :: "(jsstring \<rightharpoonup> nat) \<Rightarrow> nat \<Rightarrow> File \<Rightarrow> bytes \<Rightarrow> CompressedEntry" where
  "entryOf m off f cv =
     \<lparr>nameBytes = encodeFilename (name f),
      crc32 = unat (calculateCRC32 (data f)),
      adler32 = (case mapAfter m f cv (name f) of None \<Rightarrow> 0 | Some a \<Rightarrow> a),
      compressedData = rawDeflate cv,
      uncompressedSize = length (data f),
      localOffset = off\<rparr>"

definition entrySize :: "CompressedEntry \<Rightarrow> nat" where
  "entrySize e = 30 + length (nameBytes e) + length (compressedData e)"

text \<open>The entries of the files in order, from a map and an offset to start with.\<close>

fun entries ::
  "(jsstring \<rightharpoonup> nat) \<Rightarrow> nat \<Rightarrow> File list \<Rightarrow> bytes list \<Rightarrow> CompressedEntry list" where
  "entries m off (f # fs) (cv # cvs) =
     entryOf m off f cv
       # entries (mapAfter m f cv) (off + entrySize (entryOf m off f cv)) fs cvs"
| "entries m off fs cvs = []"

text \<open>The bytes of the comment, of the two headers and of the end record.\<close>

definition commentBytes :: "CompressedEntry \<Rightarrow> bytes" where
  "commentBytes e = textEncode (padStart (toString16 (adler32 e)) 8 0x30)"

definition localHeaderBytes :: "CompressedEntry \<Rightarrow> bytes" where
  "localHeaderBytes e =
     le32 0x04034b50 @ le16 20 @ le16 0 @ le16 8 @ le16 0 @ le16 0 @ le32 (crc32 e)
     @ le32 (length (compressedData e)) @ le32 (uncompressedSize e)
     @ le16 (length (nameBytes e)) @ le16 0 @ nameBytes e"

definition centralHeaderBytes :: "CompressedEntry \<Rightarrow> bytes" where
  "centralHeaderBytes e =
     le32 0x02014b50 @ le16 20 @ le16 20 @ le16 0 @ le16 8 @ le16 0 @ le16 0 @ le32 (crc32 e)
     @ le32 (length (compressedData e)) @ le32 (uncompressedSize e)
     @ le16 (length (nameBytes e)) @ le16 0 @ le16 (length (commentBytes e)) @ le16 0
     @ le16 0 @ le32 0 @ le32 (localOffset e) @ nameBytes e @ commentBytes e"

definition endRecordBytes :: "nat \<Rightarrow> nat \<Rightarrow> nat \<Rightarrow> bytes" where
  "endRecordBytes count centralDirSize centralDirStart =
     le32 0x06054b50 @ le16 0 @ le16 0 @ le16 count @ le16 count @ le32 centralDirSize
     @ le32 centralDirStart @ le16 0"

text \<open>
  The compressed views of a list of buffers, each obtained as the loop obtains it, one
  after the other through the state of the platform; the first failure ends it.
\<close>

fun deflateAll ::
  "('w, 'e) compressionStream \<Rightarrow> 'w \<Rightarrow> bytes list \<Rightarrow> ('e error + bytes list) \<times> 'w" where
  "deflateAll cs w [] = (Inr [], w)"
| "deflateAll cs w (d # ds) =
     (case compressBuffer cs w d of
        (Inl err, w') \<Rightarrow> (Inl err, w')
      | (Inr cv, w') \<Rightarrow>
          (case deflateAll cs w' ds of
             (Inl err, w'') \<Rightarrow> (Inl err, w'')
           | (Inr cvs, w'') \<Rightarrow> (Inr (cv # cvs), w'')))"

text \<open>
  Reading a comment: the ASCII codes of the digits 0 to 9 and of the lower-case letters a
  to f, the value of such a digit, and the number a string of them denotes in base 16.
\<close>

definition lowerHexDigit :: "byte \<Rightarrow> bool" where
  "lowerHexDigit c = ((0x30 \<le> unat c \<and> unat c \<le> 0x39) \<or> (0x61 \<le> unat c \<and> unat c \<le> 0x66))"

definition digitValue :: "byte \<Rightarrow> nat" where
  "digitValue c = (if unat c \<le> 0x39 then unat c - 0x30 else unat c - 0x57)"

definition hexValue :: "bytes \<Rightarrow> nat" where
  "hexValue s = foldl (\<lambda>v c. 16 * v + digitValue c) 0 s"

text \<open>The parts of the blob a call returned; none when it threw.\<close>

definition returnedParts :: "('e error + Blob) \<times> 'w \<Rightarrow> bytes list" where
  "returnedParts r = (case fst r of Inl err \<Rightarrow> [] | Inr b \<Rightarrow> blobParts b)"

section \<open>Sample inputs\<close>

text \<open>
  Files and a platform on which the theorems are instantiated. The compressed streams
  are the ones zlib produces at its default level for the three contents; any other
  content makes the stream fail after its first chunk. The state of the platform is the
  list of the buffers written to the transform so far.
\<close>

definition alphaFile :: File where
  "alphaFile = \<lparr>name = [0x61, 0x6C, 0x70, 0x68, 0x61, 0x2E, 0x74, 0x78, 0x74],
                data = [0x61, 0x6C, 0x70, 0x68, 0x61]\<rparr>"

definition bravoFile :: File where
  "bravoFile = \<lparr>name = [0x62, 0x72, 0x61, 0x76, 0x6F, 0x2E, 0x74, 0x78, 0x74],
                data = [0x62, 0x72, 0x61, 0x76, 0x6F]\<rparr>"


definition brokenFile :: File where
  "brokenFile = \<lparr>name = [0x78, 0x2E, 0x74, 0x78, 0x74], data = [0xFF]\<rparr>"

definition alphaZlib :: bytes where
  "alphaZlib = [120, 156, 75, 204, 41, 200, 72, 4, 0, 6, 27, 2, 7]"

definition bravoZlib :: bytes where
  "bravoZlib = [120, 156, 75, 42, 74, 44, 203, 7, 0, 6, 53, 2, 27]"

definition emptyZlib :: bytes where
  "emptyZlib = [120, 156, 3, 0, 0, 0, 0, 1]"

definition zlibStream :: "(bytes list, string) compressionStream" where
  "zlibStream w d =
     (if d = data alphaFile then Stream [take 2 alphaZlib, drop 2 alphaZlib] None
      else if d = data bravoFile then Stream [bravoZlib] None
      else if d = [] then Stream [emptyZlib] None
      else Stream [take 2 alphaZlib] (Some ''aborted''),
      w @ [d])"

text \<open>A file whose name is 65536 times the letter a.\<close>

definition longNameFile :: File where
  "longNameFile = \<lparr>name = replicate 65536 0x61, data = []\<rparr>"



section \<open>Theorems\<close>

subsection \<open>CRC-32\<close>

lemma funpow8: "(f ^^ 8) x = f (f (f (f (f (f (f (f x)))))))"
  by (simp add: numeral_eq_Suc)

lemma crcTableStep_refBit: "crcTableStep crc = refBit crc"
  by (simp add: crcTableStep_def refBit_def bit_0 and_one_eq odd_iff_mod_2_eq_one)

lemma refBit_alt: "refBit r = drop_bit 1 r XOR (if bit r 0 then 0xEDB88320 else 0)"
  by (simp add: refBit_def)

lemma refBit_xor: "refBit (x XOR y) = refBit x XOR refBit y"
  by (simp add: refBit_alt bit_xor_iff xor.assoc xor.left_commute)

lemma refBit_funpow_xor: "(refBit ^^ n) (x XOR y) = (refBit ^^ n) x XOR (refBit ^^ n) y"
  by (induction n) (simp_all add: refBit_xor)

text \<open>A register whose low \<open>n\<close> bits are clear is only shifted by \<open>n\<close> steps.\<close>

lemma refBit_funpow_high:
  "(\<And>i. i < n \<Longrightarrow> \<not> bit y i) \<Longrightarrow> (refBit ^^ n) y = drop_bit n y"
proof (induction n)
  case 0
  show ?case by simp
next
  case (Suc n)
  have nb: "\<not> bit y n" using Suc.prems [of n] by simp
  have "(refBit ^^ n) y = drop_bit n y" using Suc.prems by (intro Suc.IH) simp
  then have "(refBit ^^ Suc n) y = refBit (drop_bit n y)" by simp
  also have "\<dots> = drop_bit (Suc n) y"
    using nb by (simp add: refBit_def bit_drop_bit_eq del: drop_bit_Suc)
  finally show ?case .
qed

lemma split_low_byte: "(x :: u32) = (x AND 0xFF) XOR push_bit 8 (drop_bit 8 x)"
proof -
  have m: "(0xFF :: u32) = mask 8" by (simp add: mask_eq_exp_minus_1)
  show ?thesis unfolding m
    by (rule bit_eqI) (auto simp: bit_simps)
qed

lemma refBit8_table: "(refBit ^^ 8) x = drop_bit 8 x XOR (refBit ^^ 8) (x AND 0xFF)"
proof -
  have h: "(refBit ^^ 8) (push_bit 8 (drop_bit 8 x)) = drop_bit 8 (push_bit 8 (drop_bit 8 x))"
    by (rule refBit_funpow_high) (simp add: bit_push_bit_iff)
  have d: "drop_bit 8 (push_bit 8 (drop_bit 8 x)) = drop_bit 8 x"
    by (rule bit_eqI) (auto simp: bit_simps dest: bit_imp_le_length)
  have "(refBit ^^ 8) x = (refBit ^^ 8) ((x AND 0xFF) XOR push_bit 8 (drop_bit 8 x))"
    using split_low_byte [of x] by simp
  also have "\<dots> = (refBit ^^ 8) (x AND 0xFF) XOR drop_bit 8 x"
    by (simp only: refBit_funpow_xor h d)
  finally show ?thesis by (simp add: xor.commute)
qed

lemma low_byte_less: "unat ((x :: u32) AND 0xFF) < 256"
proof -
  have "x AND 0xFF \<le> 0xFF" by (rule word_and_le1)
  then show ?thesis by (simp add: word_le_nat_alt)
qed

lemma crcTable_nth: "crcTable ! unat ((x :: u32) AND 0xFF) = (refBit ^^ 8) (x AND 0xFF)"
proof -
  have "crcTableStep = refBit" by (rule ext) (rule crcTableStep_refBit)
  then show ?thesis using low_byte_less [of x] by (simp add: crcTable_def)
qed

lemma drop8_ucast_byte: "drop_bit 8 (ucast (b :: byte) :: u32) = 0"
  by (rule bit_eqI) (auto simp: bit_simps dest: bit_imp_le_length)

lemma crcLoop_refByte: "crcLoop crc bs = foldl refByte crc bs"
proof (induction bs arbitrary: crc)
  case Nil
  show ?case by simp
next
  case (Cons b bs)
  have "drop_bit 8 crc XOR crcTable ! unat ((crc XOR ucast b) AND 0xFF) = refByte crc b"
    unfolding refByte_def crcTable_nth
    using refBit8_table [of "crc XOR ucast b"] by (simp add: drop8_ucast_byte)
  then show ?case using Cons.IH by simp
qed

lemma calculateCRC32_reference: "calculateCRC32 bs = crc32Reference bs"
  by (simp add: calculateCRC32_def crc32Reference_def crcLoop_refByte)

lemma crc32Reference_check:
  "crc32Reference [0x31, 0x32, 0x33, 0x34, 0x35, 0x36, 0x37, 0x38, 0x39] = 0xCBF43926"
  by (simp add: crc32Reference_def refByte_def funpow8 refBit_def)

text \<open>
  Claim C4. For every byte sequence, \<open>#calculateCRC32\<close> is the reflected CRC-32 with the
  polynomial \<open>0xEDB88320\<close>, the initial register \<open>0xFFFFFFFF\<close> and the final XOR with
  \<open>0xFFFFFFFF\<close>, in 32 bits; the CRC of the empty sequence is 0, and the CRC of the
  ASCII bytes of "123456789" is \<open>0xCBF43926\<close>.
\<close>

theorem calculateCRC32_is_reference_crc32:
  "calculateCRC32 bs = crc32Reference bs
   \<and> calculateCRC32 [] = 0
   \<and> calculateCRC32 [0x31, 0x32, 0x33, 0x34, 0x35, 0x36, 0x37, 0x38, 0x39] = 0xCBF43926"
proof -
  have "calculateCRC32 [] = 0" by (simp add: calculateCRC32_def)
  then show ?thesis
    by (simp only: calculateCRC32_reference crc32Reference_check simp_thms)
qed

subsection \<open>The buffers and the loop\<close>

lemma list_update_Cons_numeral: "(x # xs)[numeral k := y] = x # xs[pred_numeral k := y]"
  by (simp add: numeral_eq_Suc)

lemma take_Cons_numeral_add: "take (numeral k + n) (x # xs) = x # take (pred_numeral k + n) xs"
  by (simp add: numeral_eq_Suc)

lemma drop_Cons_numeral_add: "drop (numeral k + n) (x # xs) = drop (pred_numeral k + n) xs"
  by (simp add: numeral_eq_Suc)

lemma zeros30: "replicate 30 (0 :: byte) =
  [0,0,0,0,0,0,0,0,0,0, 0,0,0,0,0,0,0,0,0,0, 0,0,0,0,0,0,0,0,0,0]"
  by (simp add: numeral_eq_Suc)

lemma zeros46: "replicate 46 (0 :: byte) =
  [0,0,0,0,0,0,0,0,0,0, 0,0,0,0,0,0,0,0,0,0, 0,0,0,0,0,0,0,0,0,0,
   0,0,0,0,0,0,0,0,0,0, 0,0,0,0,0,0]"
  by (simp add: numeral_eq_Suc)

lemma zeros22: "replicate 22 (0 :: byte) =
  [0,0,0,0,0,0,0,0,0,0, 0,0,0,0,0,0,0,0,0,0, 0,0]"
  by (simp add: numeral_eq_Suc)

lemma writeUint16_append:
  "off + 2 \<le> length a \<Longrightarrow> writeUint16 (a @ b) off v = map_option (\<lambda>a'. a' @ b) (writeUint16 a off v)"
  by (simp add: writeUint16_def list_update_append1)

lemma writeUint32_append:
  "off + 4 \<le> length a \<Longrightarrow> writeUint32 (a @ b) off v = map_option (\<lambda>a'. a' @ b) (writeUint32 a off v)"
  by (simp add: writeUint32_def list_update_append1)

lemma makeLocalHeader_layout:
  "makeLocalHeader fn c csize usize =
     Some (le32 0x04034b50 @ le16 20 @ le16 0 @ le16 8 @ le16 0 @ le16 0 @ le32 c
           @ le32 csize @ le32 usize @ le16 (length fn)
           @ le16 0 @ fn)"
proof -
  have z: "replicate (30 + length fn) (0 :: byte)
           = replicate 30 0 @ replicate (length fn) 0"
    by (simp add: replicate_add)
  show ?thesis
    unfolding makeLocalHeader_def Let_def z zeros30
    apply (simp add: writeUint16_append writeUint32_append)
    apply (simp add: writeUint16_def writeUint32_def list_update_Cons_numeral)
    apply (simp add: setBytes_def le16_def le32_def)
    done
qed

lemma makeCentralHeader_layout:
  "makeCentralHeader fn comment c csize usize off =
     Some (le32 0x02014b50 @ le16 20 @ le16 20 @ le16 0 @ le16 8 @ le16 0 @ le16 0
           @ le32 c @ le32 csize @ le32 usize
           @ le16 (length fn) @ le16 0 @ le16 (length comment) @ le16 0
           @ le16 0 @ le32 0 @ le32 off @ fn @ comment)"
proof -
  have z: "replicate (46 + length fn + length comment) (0 :: byte)
           = replicate 46 0 @ (replicate (length fn) 0 @ replicate (length comment) 0)"
    by (simp add: replicate_add)
  show ?thesis
    unfolding makeCentralHeader_def Let_def z zeros46
    apply (simp add: writeUint16_append writeUint32_append)
    apply (simp add: writeUint16_def writeUint32_def list_update_Cons_numeral)
    apply (simp add: setBytes_def le16_def le32_def take_Cons_numeral_add drop_Cons_numeral_add)
    done
qed

lemma makeEndOfCentralDir_layout:
  "makeEndOfCentralDir filesLength centralDirSize centralDirStart =
     Some (endRecordBytes filesLength centralDirSize centralDirStart)"
  unfolding makeEndOfCentralDir_def Let_def zeros22
  by (simp add: writeUint16_def writeUint32_def list_update_Cons_numeral
      endRecordBytes_def le16_def le32_def)


lemma getUint32_trailer:
  "4 \<le> length cv \<Longrightarrow> getUint32 (drop (length cv - 4) cv) 0 False = Some (adler32Trailer cv)"
proof -
  assume h: "4 \<le> length cv"
  have e: "Suc (length cv - 4) = length cv - 3" "Suc (length cv - 3) = length cv - 2"
    "length cv - 4 + 3 = length cv - 1" "Suc (length cv - 2) = length cv - 1"
    using h by simp_all
  show ?thesis using h by (simp add: getUint32_def adler32Trailer_def Let_def e)
qed

lemma addEntry_entryOf:
  "addEntry f cv st =
     Some \<lparr>parts = parts st @ [localHeaderBytes (entryOf (adler32Map st) (offset st) f cv),
                               compressedData (entryOf (adler32Map st) (offset st) f cv)],
           centralHeaders = centralHeaders st
             @ [centralHeaderBytes (entryOf (adler32Map st) (offset st) f cv)],
           adler32Map = mapAfter (adler32Map st) f cv,
           offset = offset st + entrySize (entryOf (adler32Map st) (offset st) f cv)\<rparr>"
proof (cases "zlibWrapped cv")
  case True
  then have l: "4 \<le> length cv" and g: "6 \<le> length cv \<and> cv ! 0 = 0x78"
    by (simp_all add: zlibWrapped_def)
  show ?thesis
    unfolding addEntry_def Let_def
    by (simp add: g getUint32_trailer [OF l] makeLocalHeader_layout makeCentralHeader_layout
        entryOf_def mapAfter_def True rawDeflate_def slice_def localHeaderBytes_def
        centralHeaderBytes_def commentBytes_def entrySize_def)
next
  case False
  then have g: "\<not> (6 \<le> length cv \<and> cv ! 0 = 0x78)"
    by (simp add: zlibWrapped_def)
  show ?thesis
    unfolding addEntry_def Let_def
    by (simp add: g makeLocalHeader_layout makeCentralHeader_layout
        entryOf_def mapAfter_def False rawDeflate_def localHeaderBytes_def
        centralHeaderBytes_def commentBytes_def entrySize_def)
qed

lemma zipLoop_entries:
  "deflateAll cs w (map data fs) = (Inr cvs, w') \<Longrightarrow>
   \<exists>m. zipLoop cs fs st w =
     (Inr \<lparr>parts = parts st
               @ concat (map (\<lambda>e. [localHeaderBytes e, compressedData e])
                          (entries (adler32Map st) (offset st) fs cvs)),
            centralHeaders = centralHeaders st
               @ map centralHeaderBytes (entries (adler32Map st) (offset st) fs cvs),
            adler32Map = m,
            offset = offset st
               + sum_list (map entrySize (entries (adler32Map st) (offset st) fs cvs))\<rparr>, w')"
proof (induction fs arbitrary: st w cvs)
  case Nil
  then show ?case by (intro exI [of _ "adler32Map st"]) auto
next
  case (Cons f fs)
  from Cons.prems obtain cv w1 cvs' where
    c: "compressBuffer cs w (data f) = (Inr cv, w1)" and
    r: "deflateAll cs w1 (map data fs) = (Inr cvs', w')" and
    e: "cvs = cv # cvs'"
    by (auto split: prod.splits sum.splits)
  let ?e = "entryOf (adler32Map st) (offset st) f cv"
  let ?st = "\<lparr>parts = parts st @ [localHeaderBytes ?e, compressedData ?e],
           centralHeaders = centralHeaders st @ [centralHeaderBytes ?e],
           adler32Map = mapAfter (adler32Map st) f cv,
           offset = offset st + entrySize ?e\<rparr>"
  from Cons.IH [OF r, of ?st] obtain m where
    "zipLoop cs fs ?st w1 =
     (Inr \<lparr>parts = parts ?st
               @ concat (map (\<lambda>e. [localHeaderBytes e, compressedData e])
                          (entries (adler32Map ?st) (offset ?st) fs cvs')),
            centralHeaders = centralHeaders ?st
               @ map centralHeaderBytes (entries (adler32Map ?st) (offset ?st) fs cvs'),
            adler32Map = m,
            offset = offset ?st
               + sum_list (map entrySize (entries (adler32Map ?st) (offset ?st) fs cvs'))\<rparr>, w')"
    by blast
  then show ?case
    by (simp add: c e addEntry_entryOf add.assoc)
qed

lemma zipLoop_failure:
  "deflateAll cs w (map data fs) = (Inl err, w') \<Longrightarrow> zipLoop cs fs st w = (Inl err, w')"
proof (induction fs arbitrary: st w)
  case Nil
  then show ?case by simp
next
  case (Cons f fs)
  show ?case
  proof (cases "compressBuffer cs w (data f)")
    case (Pair r w1)
    show ?thesis
    proof (cases r)
      case (Inl e1)
      with Pair Cons.prems show ?thesis by simp
    next
      case (Inr cv)
      with Pair Cons.prems have "deflateAll cs w1 (map data fs) = (Inl err, w')"
        by (auto split: prod.splits sum.splits)
      then have "zipLoop cs fs st' w1 = (Inl err, w')" for st'
        by (rule Cons.IH)
      with Pair Inr show ?thesis by (simp add: addEntry_entryOf)
    qed
  qed
qed


lemma foldl_length_sum: "foldl (\<lambda>sum h. sum + length h) a hs = a + sum_list (map length hs)"
  by (induction hs arbitrary: a) simp_all

lemma createZipFromFiles_success:
  assumes "deflateAll cs w (map data files) = (Inr cvs, w')"
  shows "createZipFromFiles cs w files =
    (Inr \<lparr>blobParts =
            concat (map (\<lambda>e. [localHeaderBytes e, compressedData e])
                      (entries Map.empty 0 files cvs))
            @ map centralHeaderBytes (entries Map.empty 0 files cvs)
            @ [endRecordBytes (length files)
                 (sum_list (map length (map centralHeaderBytes (entries Map.empty 0 files cvs))))
                 (sum_list (map entrySize (entries Map.empty 0 files cvs)))],
          type = ''application/zip''\<rparr>, w')"
proof -
  from zipLoop_entries [OF assms,
      of "\<lparr>parts = [], centralHeaders = [], adler32Map = Map.empty, offset = 0\<rparr>"]
  obtain m where
    "zipLoop cs files \<lparr>parts = [], centralHeaders = [], adler32Map = Map.empty, offset = 0\<rparr> w =
     (Inr \<lparr>parts = concat (map (\<lambda>e. [localHeaderBytes e, compressedData e])
                          (entries Map.empty 0 files cvs)),
            centralHeaders = map centralHeaderBytes (entries Map.empty 0 files cvs),
            adler32Map = m,
            offset = sum_list (map entrySize (entries Map.empty 0 files cvs))\<rparr>, w')"
    by auto
  then show ?thesis
    by (simp add: createZipFromFiles_def Let_def foldl_length_sum makeEndOfCentralDir_layout)
qed

lemma createZipFromFiles_failure:
  "deflateAll cs w (map data files) = (Inl err, w') \<Longrightarrow>
   createZipFromFiles cs w files = (Inl err, w')"
  by (simp add: createZipFromFiles_def zipLoop_failure)

lemma deflateAll_length:
  "deflateAll cs w ds = (Inr cvs, w') \<Longrightarrow> length cvs = length ds"
  by (induction ds arbitrary: w cvs) (auto split: prod.splits sum.splits)

lemma length_entries: "length (entries m off fs cvs) = min (length fs) (length cvs)"
  by (induction m off fs cvs rule: entries.induct) simp_all

lemma entries_nth:
  "i < length fs \<Longrightarrow> length cvs = length fs \<Longrightarrow>
   nameBytes (entries m off fs cvs ! i) = encodeFilename (name (fs ! i))
   \<and> crc32 (entries m off fs cvs ! i) = unat (calculateCRC32 (data (fs ! i)))
   \<and> compressedData (entries m off fs cvs ! i) = rawDeflate (cvs ! i)
   \<and> uncompressedSize (entries m off fs cvs ! i) = length (data (fs ! i))
   \<and> localOffset (entries m off fs cvs ! i) =
       off + (\<Sum>j<i. 30 + length (encodeFilename (name (fs ! j))) + length (rawDeflate (cvs ! j)))"
proof (induction m off fs cvs arbitrary: i rule: entries.induct)
  case (1 m off f fs cv cvs)
  show ?case
  proof (cases i)
    case 0
    then show ?thesis by (simp add: entryOf_def)
  next
    case (Suc k)
    with "1.prems" have k: "k < length fs" "length cvs = length fs" by simp_all
    from "1.IH" [OF k] show ?thesis
      by (simp add: Suc sum.lessThan_Suc_shift entrySize_def entryOf_def add.assoc
          del: sum.lessThan_Suc)
  qed
qed simp_all


lemma concat_pairs_length: "length (concat (map (\<lambda>e. [f e, g e]) es)) = 2 * length es"
  by (induction es) simp_all

lemma concat_pairs_nth:
  "i < length es \<Longrightarrow>
   concat (map (\<lambda>e. [f e, g e]) es) ! (2 * i) = f (es ! i)
   \<and> concat (map (\<lambda>e. [f e, g e]) es) ! (2 * i + 1) = g (es ! i)"
proof (induction es arbitrary: i)
  case Nil
  then show ?case by simp
next
  case (Cons e es)
  then show ?case by (cases i) simp_all
qed

lemma concat_pairs_bytes:
  "concat (concat (map (\<lambda>e. [f e, g e]) es)) = concat (map (\<lambda>e. f e @ g e) es)"
  by (induction es) simp_all

subsection \<open>The sample inputs, evaluated\<close>

lemma zlibStream_alpha_bravo:
  "deflateAll zlibStream [] (map data [alphaFile, bravoFile]) =
     (Inr [alphaZlib, bravoZlib], [data alphaFile, data bravoFile])"
  by (simp add: compressBuffer_def zlibStream_def alphaFile_def bravoFile_def alphaZlib_def
      bravoZlib_def arrayBuffer_def)

lemma crc_alpha: "calculateCRC32 (data alphaFile) = 0xD0E0396A"
  by (simp add: calculateCRC32_reference alphaFile_def crc32Reference_def refByte_def funpow8 refBit_def)

lemma crc_bravo: "calculateCRC32 (data bravoFile) = 0x099BB889"
  by (simp add: calculateCRC32_reference bravoFile_def crc32Reference_def refByte_def funpow8 refBit_def)

lemma name_alpha: "encodeFilename (name alphaFile) = [0x61, 0x6C, 0x70, 0x68, 0x61, 0x2E, 0x74, 0x78, 0x74]"
  by (simp add: encodeFilename_def alphaFile_def highSurrogate_def lowSurrogate_def utf8_def)

lemma name_bravo: "encodeFilename (name bravoFile) = [0x62, 0x72, 0x61, 0x76, 0x6F, 0x2E, 0x74, 0x78, 0x74]"
  by (simp add: encodeFilename_def bravoFile_def highSurrogate_def lowSurrogate_def utf8_def)

lemma hex_alpha: "textEncode (padStart (toString16 0x061B0207) 8 0x30) = [48, 54, 49, 98, 48, 50, 48, 55]"
  by (simp add: toString16.simps padStart_def hexDigit_def highSurrogate_def lowSurrogate_def utf8_def)

lemma hex_bravo: "textEncode (padStart (toString16 0x0635021B) 8 0x30) = [48, 54, 51, 53, 48, 50, 49, 98]"
  by (simp add: toString16.simps padStart_def hexDigit_def highSurrogate_def lowSurrogate_def utf8_def)

lemma entries_alpha_bravo:
  "entries Map.empty 0 [alphaFile, bravoFile] [alphaZlib, bravoZlib] =
     [\<lparr>nameBytes = [0x61, 0x6C, 0x70, 0x68, 0x61, 0x2E, 0x74, 0x78, 0x74], crc32 = 0xD0E0396A,
       adler32 = 0x061B0207, compressedData = [75, 204, 41, 200, 72, 4, 0],
       uncompressedSize = 5, localOffset = 0\<rparr>,
      \<lparr>nameBytes = [0x62, 0x72, 0x61, 0x76, 0x6F, 0x2E, 0x74, 0x78, 0x74], crc32 = 0x099BB889,
       adler32 = 0x0635021B, compressedData = [75, 42, 74, 44, 203, 7, 0],
       uncompressedSize = 5, localOffset = 46\<rparr>]"
  apply (simp add: entryOf_def crc_alpha crc_bravo name_alpha name_bravo entrySize_def mapAfter_def)
  apply (simp add: alphaZlib_def bravoZlib_def zlibWrapped_def adler32Trailer_def rawDeflate_def alphaFile_def bravoFile_def)
  done


subsection \<open>The archive\<close>

lemma map_entries:
  "length cvs = length fs \<Longrightarrow>
   map nameBytes (entries m off fs cvs) = map (\<lambda>f. encodeFilename (name f)) fs
   \<and> map compressedData (entries m off fs cvs) = map rawDeflate cvs"
  by (induction m off fs cvs rule: entries.induct) (simp_all add: entryOf_def)

text \<open>
  Claim C1. When the transform succeeds on every file of the list, \<open>compress\<close> returns
  a blob of type \<open>application/zip\<close> whose bytes are, in the order of the input, each
  entry's local file header immediately followed by its raw deflate data, then the
  central directory headers in the same order, then the one end of central directory
  record. The entries have the names of the files, encoded, and the compressed streams
  without their zlib wrapper.
\<close>

theorem compress_array_layout:
  assumes "deflateAll cs w (map data files) = (Inr cvs, w')"
  shows "\<exists>b. compress cs w (FileArray files) = (Inr b, w')
    \<and> type b = ''application/zip''
    \<and> arrayBuffer b =
        concat (map (\<lambda>e. localHeaderBytes e @ compressedData e) (entries Map.empty 0 files cvs))
        @ concat (map centralHeaderBytes (entries Map.empty 0 files cvs))
        @ endRecordBytes (length files)
            (sum_list (map length (map centralHeaderBytes (entries Map.empty 0 files cvs))))
            (sum_list (map entrySize (entries Map.empty 0 files cvs)))
    \<and> length (entries Map.empty 0 files cvs) = length files
    \<and> map nameBytes (entries Map.empty 0 files cvs) = map (\<lambda>f. encodeFilename (name f)) files
    \<and> map compressedData (entries Map.empty 0 files cvs) = map rawDeflate cvs"
proof -
  have l: "length cvs = length files"
    using deflateAll_length [OF assms] by simp
  show ?thesis
    by (simp add: createZipFromFiles_success [OF assms] arrayBuffer_def concat_pairs_bytes
        length_entries l map_entries)
qed

theorem compress_array_layout_witness:
  "deflateAll zlibStream [] (map data [alphaFile, bravoFile]) =
     (Inr [alphaZlib, bravoZlib], [data alphaFile, data bravoFile])
   \<and> (\<exists>b. compress zlibStream [] (FileArray [alphaFile, bravoFile]) =
            (Inr b, [data alphaFile, data bravoFile])
      \<and> type b = ''application/zip''
      \<and> arrayBuffer b =
          [80, 75, 3, 4, 20, 0, 0, 0, 8, 0, 0, 0, 0, 0, 106, 57, 224, 208, 7, 0, 0, 0, 5, 0, 0, 0,
           9, 0, 0, 0, 97, 108, 112, 104, 97, 46, 116, 120, 116,
           75, 204, 41, 200, 72, 4, 0,
           80, 75, 3, 4, 20, 0, 0, 0, 8, 0, 0, 0, 0, 0, 137, 184, 155, 9, 7, 0, 0, 0, 5, 0, 0, 0,
           9, 0, 0, 0, 98, 114, 97, 118, 111, 46, 116, 120, 116,
           75, 42, 74, 44, 203, 7, 0,
           80, 75, 1, 2, 20, 0, 20, 0, 0, 0, 8, 0, 0, 0, 0, 0, 106, 57, 224, 208, 7, 0, 0, 0,
           5, 0, 0, 0, 9, 0, 0, 0, 8, 0, 0, 0, 0, 0, 0, 0, 0, 0, 0, 0, 0, 0,
           97, 108, 112, 104, 97, 46, 116, 120, 116, 48, 54, 49, 98, 48, 50, 48, 55,
           80, 75, 1, 2, 20, 0, 20, 0, 0, 0, 8, 0, 0, 0, 0, 0, 137, 184, 155, 9, 7, 0, 0, 0,
           5, 0, 0, 0, 9, 0, 0, 0, 8, 0, 0, 0, 0, 0, 0, 0, 0, 0, 46, 0, 0, 0,
           98, 114, 97, 118, 111, 46, 116, 120, 116, 48, 54, 51, 53, 48, 50, 49, 98,
           80, 75, 5, 6, 0, 0, 0, 0, 2, 0, 2, 0, 126, 0, 0, 0, 92, 0, 0, 0, 0, 0])"
proof -
  from compress_array_layout [OF zlibStream_alpha_bravo] obtain b where
    c: "compress zlibStream [] (FileArray [alphaFile, bravoFile]) =
          (Inr b, [data alphaFile, data bravoFile])" and
    t: "type b = ''application/zip''" and
    a: "arrayBuffer b =
        concat (map (\<lambda>e. localHeaderBytes e @ compressedData e)
                  (entries Map.empty 0 [alphaFile, bravoFile] [alphaZlib, bravoZlib]))
        @ concat (map centralHeaderBytes
                    (entries Map.empty 0 [alphaFile, bravoFile] [alphaZlib, bravoZlib]))
        @ endRecordBytes (length [alphaFile, bravoFile])
            (sum_list (map length (map centralHeaderBytes
               (entries Map.empty 0 [alphaFile, bravoFile] [alphaZlib, bravoZlib]))))
            (sum_list (map entrySize
               (entries Map.empty 0 [alphaFile, bravoFile] [alphaZlib, bravoZlib])))"
    by blast
  note a [unfolded entries_alpha_bravo]
  then have "arrayBuffer b =
          [80, 75, 3, 4, 20, 0, 0, 0, 8, 0, 0, 0, 0, 0, 106, 57, 224, 208, 7, 0, 0, 0, 5, 0, 0, 0,
           9, 0, 0, 0, 97, 108, 112, 104, 97, 46, 116, 120, 116,
           75, 204, 41, 200, 72, 4, 0,
           80, 75, 3, 4, 20, 0, 0, 0, 8, 0, 0, 0, 0, 0, 137, 184, 155, 9, 7, 0, 0, 0, 5, 0, 0, 0,
           9, 0, 0, 0, 98, 114, 97, 118, 111, 46, 116, 120, 116,
           75, 42, 74, 44, 203, 7, 0,
           80, 75, 1, 2, 20, 0, 20, 0, 0, 0, 8, 0, 0, 0, 0, 0, 106, 57, 224, 208, 7, 0, 0, 0,
           5, 0, 0, 0, 9, 0, 0, 0, 8, 0, 0, 0, 0, 0, 0, 0, 0, 0, 0, 0, 0, 0,
           97, 108, 112, 104, 97, 46, 116, 120, 116, 48, 54, 49, 98, 48, 50, 48, 55,
           80, 75, 1, 2, 20, 0, 20, 0, 0, 0, 8, 0, 0, 0, 0, 0, 137, 184, 155, 9, 7, 0, 0, 0,
           5, 0, 0, 0, 9, 0, 0, 0, 8, 0, 0, 0, 0, 0, 0, 0, 0, 0, 46, 0, 0, 0,
           98, 114, 97, 118, 111, 46, 116, 120, 116, 48, 54, 51, 53, 48, 50, 49, 98,
           80, 75, 5, 6, 0, 0, 0, 0, 2, 0, 2, 0, 126, 0, 0, 0, 92, 0, 0, 0, 0, 0]"
    by (simp add: localHeaderBytes_def centralHeaderBytes_def commentBytes_def hex_alpha
        hex_bravo endRecordBytes_def entrySize_def le16_def le32_def)
  with c t zlibStream_alpha_bravo show ?thesis by blast
qed

subsection \<open>The public operation\<close>

text \<open>
  Claim C10. For the empty list \<open>compress\<close> returns a blob of type
  \<open>application/zip\<close> whose 22 bytes are the end of central directory record alone:
  the signature \<open>0x06054b50\<close>, both disk numbers 0, both entry counts 0, the size and
  the start of the central directory 0, and the comment length 0. The transform is not
  used.
\<close>

theorem compress_empty_array:
  "compress cs w (FileArray []) =
     (Inr \<lparr>blobParts = [[0x50, 0x4B, 0x05, 0x06, 0, 0, 0, 0, 0, 0, 0, 0, 0, 0, 0, 0, 0, 0, 0, 0, 0, 0]],
           type = ''application/zip''\<rparr>, w)
   \<and> length (arrayBuffer (\<lparr>blobParts = [[0x50, 0x4B, 0x05, 0x06, 0, 0, 0, 0, 0, 0, 0, 0, 0, 0, 0, 0, 0, 0, 0, 0, 0, 0]],
           type = ''application/zip''\<rparr>)) = 22
   \<and> getUint32 [0x50, 0x4B, 0x05, 0x06, 0, 0, 0, 0, 0, 0, 0, 0, 0, 0, 0, 0, 0, 0, 0, 0, 0, 0] 0 True
       = Some 0x06054b50
   \<and> getUint16 [0x50, 0x4B, 0x05, 0x06, 0, 0, 0, 0, 0, 0, 0, 0, 0, 0, 0, 0, 0, 0, 0, 0, 0, 0] 8 True
       = Some 0
   \<and> getUint16 [0x50, 0x4B, 0x05, 0x06, 0, 0, 0, 0, 0, 0, 0, 0, 0, 0, 0, 0, 0, 0, 0, 0, 0, 0] 10 True
       = Some 0
   \<and> getUint32 [0x50, 0x4B, 0x05, 0x06, 0, 0, 0, 0, 0, 0, 0, 0, 0, 0, 0, 0, 0, 0, 0, 0, 0, 0] 12 True
       = Some 0
   \<and> getUint32 [0x50, 0x4B, 0x05, 0x06, 0, 0, 0, 0, 0, 0, 0, 0, 0, 0, 0, 0, 0, 0, 0, 0, 0, 0] 16 True
       = Some 0
   \<and> getUint16 [0x50, 0x4B, 0x05, 0x06, 0, 0, 0, 0, 0, 0, 0, 0, 0, 0, 0, 0, 0, 0, 0, 0, 0, 0] 20 True
       = Some 0"
  by (simp add: createZipFromFiles_def makeEndOfCentralDir_layout endRecordBytes_def le16_def
      le32_def arrayBuffer_def getUint16_def getUint32_def)

lemma deflateAll_fails_at:
  "deflateAll cs w ds = (Inr cvs, w1) \<Longrightarrow> compressBuffer cs w1 d = (Inl err, w2) \<Longrightarrow>
   deflateAll cs w (ds @ d # ds') = (Inl err, w2)"
  by (induction ds arbitrary: w cvs) (auto split: prod.splits sum.splits)

text \<open>
  Claim C8. When the compression stream of some entry fails, after the entries before
  it were compressed, the call throws the error of that stream: no blob is returned,
  and the platform is left in the state in which the failed stream left it, so the
  transform is used neither again for that entry nor for any entry after it.
\<close>

theorem compression_failure_aborts:
  assumes "k < length files"
    and "deflateAll cs w (map data (take k files)) = (Inr cvs, w1)"
    and "cs w1 (data (files ! k)) = (Stream chunks (Some err), w2)"
  shows "compress cs w (FileArray files) = (Inl (StreamError err), w2)"
proof -
  have "compressBuffer cs w1 (data (files ! k)) = (Inl (StreamError err), w2)"
    using assms(3) by (simp add: compressBuffer_def)
  with assms(2) have
    "deflateAll cs w (map data (take k files) @ data (files ! k) # map data (drop (Suc k) files))
       = (Inl (StreamError err), w2)"
    by (rule deflateAll_fails_at)
  moreover have "map data (take k files) @ data (files ! k) # map data (drop (Suc k) files)
       = map data files"
    using assms(1) by (metis id_take_nth_drop list.simps(9) map_append)
  ultimately show ?thesis
    by (simp add: createZipFromFiles_failure)
qed

theorem compression_failure_aborts_witness:
  "(1 :: nat) < length [alphaFile, brokenFile, bravoFile]
   \<and> deflateAll zlibStream [] (map data (take 1 [alphaFile, brokenFile, bravoFile])) =
       (Inr [alphaZlib], [data alphaFile])
   \<and> zlibStream [data alphaFile] (data ([alphaFile, brokenFile, bravoFile] ! 1)) =
       (Stream [[120, 156]] (Some ''aborted''), [data alphaFile, data brokenFile])
   \<and> compress zlibStream [] (FileArray [alphaFile, brokenFile, bravoFile]) =
       (Inl (StreamError ''aborted''), [data alphaFile, data brokenFile])"
proof -
  have k: "(1 :: nat) < length [alphaFile, brokenFile, bravoFile]" by simp
  have d: "deflateAll zlibStream [] (map data (take 1 [alphaFile, brokenFile, bravoFile])) =
       (Inr [alphaZlib], [data alphaFile])"
    by (simp add: compressBuffer_def zlibStream_def alphaZlib_def arrayBuffer_def)
  have s: "zlibStream [data alphaFile] (data ([alphaFile, brokenFile, bravoFile] ! 1)) =
       (Stream [[120, 156]] (Some ''aborted''), [data alphaFile, data brokenFile])"
    by (simp add: zlibStream_def alphaZlib_def alphaFile_def brokenFile_def bravoFile_def)
  from compression_failure_aborts [OF k d s] k d s show ?thesis by blast
qed

subsection \<open>Reading the fields back\<close>

lemma le16_value:
  "unat (of_nat v :: byte) + 256 * unat (of_nat (v div 256) :: byte) = v mod 65536"
proof -
  have "v mod (256 * 256) = 256 * (v div 256 mod 256) + v mod 256"
    by (rule mod_mult2_eq)
  then show ?thesis by (simp add: unat_of_nat)
qed

lemma le32_value:
  "unat (of_nat v :: byte) + 256 * unat (of_nat (v div 256) :: byte)
     + 65536 * unat (of_nat (v div 65536) :: byte)
     + 16777216 * unat (of_nat (v div 16777216) :: byte) = v mod 4294967296"
proof -
  have a: "v mod (65536 * 65536) = 65536 * (v div 65536 mod 65536) + v mod 65536"
    by (rule mod_mult2_eq)
  have b: "v div 65536 mod (256 * 256) = 256 * (v div 65536 div 256 mod 256) + v div 65536 mod 256"
    by (rule mod_mult2_eq)
  have c: "v mod (256 * 256) = 256 * (v div 256 mod 256) + v mod 256"
    by (rule mod_mult2_eq)
  have d: "v div 65536 div 256 = v div 16777216"
    by (simp add: div_mult2_eq [symmetric])
  from a b c d show ?thesis by (simp add: unat_of_nat)
qed

lemma getUint16_le:
  "off + 2 \<le> length h \<Longrightarrow> h ! off = of_nat v \<Longrightarrow> h ! (off + 1) = of_nat (v div 256) \<Longrightarrow>
   getUint16 h off True = Some (v mod 65536)"
  by (simp add: getUint16_def le16_value)

lemma getUint32_le:
  "off + 4 \<le> length h \<Longrightarrow> h ! off = of_nat v \<Longrightarrow> h ! (off + 1) = of_nat (v div 256) \<Longrightarrow>
   h ! (off + 2) = of_nat (v div 65536) \<Longrightarrow> h ! (off + 3) = of_nat (v div 16777216) \<Longrightarrow>
   getUint32 h off True = Some (v mod 4294967296)"
  by (simp add: getUint32_def le32_value)

lemma localHeader_fields:
  "length (localHeaderBytes e) = 30 + length (nameBytes e)"
  "getUint32 (localHeaderBytes e) 0 True = Some 0x04034b50"
  "getUint16 (localHeaderBytes e) 4 True = Some 20"
  "getUint16 (localHeaderBytes e) 6 True = Some 0"
  "getUint16 (localHeaderBytes e) 8 True = Some 8"
  "getUint16 (localHeaderBytes e) 10 True = Some 0"
  "getUint16 (localHeaderBytes e) 12 True = Some 0"
  "getUint32 (localHeaderBytes e) 14 True = Some (crc32 e mod 4294967296)"
  "getUint32 (localHeaderBytes e) 18 True = Some (length (compressedData e) mod 4294967296)"
  "getUint32 (localHeaderBytes e) 22 True = Some (uncompressedSize e mod 4294967296)"
  "getUint16 (localHeaderBytes e) 26 True = Some (length (nameBytes e) mod 65536)"
  "getUint16 (localHeaderBytes e) 28 True = Some 0"
  "drop 30 (localHeaderBytes e) = nameBytes e"
proof -
  show "length (localHeaderBytes e) = 30 + length (nameBytes e)"
    by (simp add: localHeaderBytes_def le16_def le32_def)
  show "getUint32 (localHeaderBytes e) 0 True = Some 0x04034b50"
    by (simp add: localHeaderBytes_def le16_def le32_def getUint32_def)
  show "getUint16 (localHeaderBytes e) 4 True = Some 20"
    by (simp add: localHeaderBytes_def le16_def le32_def getUint16_def)
  show "getUint16 (localHeaderBytes e) 6 True = Some 0"
    by (simp add: localHeaderBytes_def le16_def le32_def getUint16_def)
  show "getUint16 (localHeaderBytes e) 8 True = Some 8"
    by (simp add: localHeaderBytes_def le16_def le32_def getUint16_def)
  show "getUint16 (localHeaderBytes e) 10 True = Some 0"
    by (simp add: localHeaderBytes_def le16_def le32_def getUint16_def)
  show "getUint16 (localHeaderBytes e) 12 True = Some 0"
    by (simp add: localHeaderBytes_def le16_def le32_def getUint16_def)
  show "getUint32 (localHeaderBytes e) 14 True = Some (crc32 e mod 4294967296)"
    by (rule getUint32_le) (simp_all add: localHeaderBytes_def le16_def le32_def)
  show "getUint32 (localHeaderBytes e) 18 True = Some (length (compressedData e) mod 4294967296)"
    by (rule getUint32_le) (simp_all add: localHeaderBytes_def le16_def le32_def)
  show "getUint32 (localHeaderBytes e) 22 True = Some (uncompressedSize e mod 4294967296)"
    by (rule getUint32_le) (simp_all add: localHeaderBytes_def le16_def le32_def)
  show "getUint16 (localHeaderBytes e) 26 True = Some (length (nameBytes e) mod 65536)"
    by (rule getUint16_le) (simp_all add: localHeaderBytes_def le16_def le32_def)
  show "getUint16 (localHeaderBytes e) 28 True = Some 0"
    by (simp add: localHeaderBytes_def le16_def le32_def getUint16_def)
  show "drop 30 (localHeaderBytes e) = nameBytes e"
    by (simp add: localHeaderBytes_def le16_def le32_def)
qed

lemma centralHeader_fields:
  "length (centralHeaderBytes e) = 46 + length (nameBytes e) + length (commentBytes e)"
  "getUint32 (centralHeaderBytes e) 0 True = Some 0x02014b50"
  "getUint32 (centralHeaderBytes e) 16 True = Some (crc32 e mod 4294967296)"
  "getUint32 (centralHeaderBytes e) 20 True = Some (length (compressedData e) mod 4294967296)"
  "getUint32 (centralHeaderBytes e) 24 True = Some (uncompressedSize e mod 4294967296)"
  "getUint16 (centralHeaderBytes e) 28 True = Some (length (nameBytes e) mod 65536)"
  "getUint16 (centralHeaderBytes e) 32 True = Some (length (commentBytes e) mod 65536)"
  "getUint32 (centralHeaderBytes e) 42 True = Some (localOffset e mod 4294967296)"
  "drop 46 (centralHeaderBytes e) = nameBytes e @ commentBytes e"
proof -
  show "length (centralHeaderBytes e) = 46 + length (nameBytes e) + length (commentBytes e)"
    by (simp add: centralHeaderBytes_def le16_def le32_def)
  show "getUint32 (centralHeaderBytes e) 0 True = Some 0x02014b50"
    by (simp add: centralHeaderBytes_def le16_def le32_def getUint32_def)
  show "getUint32 (centralHeaderBytes e) 16 True = Some (crc32 e mod 4294967296)"
    by (rule getUint32_le) (simp_all add: centralHeaderBytes_def le16_def le32_def)
  show "getUint32 (centralHeaderBytes e) 20 True = Some (length (compressedData e) mod 4294967296)"
    by (rule getUint32_le) (simp_all add: centralHeaderBytes_def le16_def le32_def)
  show "getUint32 (centralHeaderBytes e) 24 True = Some (uncompressedSize e mod 4294967296)"
    by (rule getUint32_le) (simp_all add: centralHeaderBytes_def le16_def le32_def)
  show "getUint16 (centralHeaderBytes e) 28 True = Some (length (nameBytes e) mod 65536)"
    by (rule getUint16_le) (simp_all add: centralHeaderBytes_def le16_def le32_def)
  show "getUint16 (centralHeaderBytes e) 32 True = Some (length (commentBytes e) mod 65536)"
    by (rule getUint16_le) (simp_all add: centralHeaderBytes_def le16_def le32_def)
  show "getUint32 (centralHeaderBytes e) 42 True = Some (localOffset e mod 4294967296)"
    by (rule getUint32_le) (simp_all add: centralHeaderBytes_def le16_def le32_def)
  show "drop 46 (centralHeaderBytes e) = nameBytes e @ commentBytes e"
    by (simp add: centralHeaderBytes_def le16_def le32_def)
qed

lemma endRecord_fields:
  "length (endRecordBytes n s t) = 22"
  "getUint32 (endRecordBytes n s t) 0 True = Some 0x06054b50"
  "getUint16 (endRecordBytes n s t) 8 True = Some (n mod 65536)"
  "getUint16 (endRecordBytes n s t) 10 True = Some (n mod 65536)"
  "getUint32 (endRecordBytes n s t) 12 True = Some (s mod 4294967296)"
  "getUint32 (endRecordBytes n s t) 16 True = Some (t mod 4294967296)"
proof -
  show "length (endRecordBytes n s t) = 22"
    by (simp add: endRecordBytes_def le16_def le32_def)
  show "getUint32 (endRecordBytes n s t) 0 True = Some 0x06054b50"
    by (simp add: endRecordBytes_def le16_def le32_def getUint32_def)
  show "getUint16 (endRecordBytes n s t) 8 True = Some (n mod 65536)"
    by (rule getUint16_le) (simp_all add: endRecordBytes_def le16_def le32_def)
  show "getUint16 (endRecordBytes n s t) 10 True = Some (n mod 65536)"
    by (rule getUint16_le) (simp_all add: endRecordBytes_def le16_def le32_def)
  show "getUint32 (endRecordBytes n s t) 12 True = Some (s mod 4294967296)"
    by (rule getUint32_le) (simp_all add: endRecordBytes_def le16_def le32_def)
  show "getUint32 (endRecordBytes n s t) 16 True = Some (t mod 4294967296)"
    by (rule getUint32_le) (simp_all add: endRecordBytes_def le16_def le32_def)
qed

subsection \<open>The parts of the blob, by their index\<close>

lemma length_entry_bytes:
  "length (concat (concat (map (\<lambda>e. [localHeaderBytes e, compressedData e]) es)))
     = sum_list (map entrySize es)"
  by (induction es) (simp_all add: entrySize_def localHeader_fields)

lemma createZipFromFiles_parts:
  assumes "deflateAll cs w (map data files) = (Inr cvs, w')"
  shows "\<exists>b. createZipFromFiles cs w files = (Inr b, w')
    \<and> type b = ''application/zip''
    \<and> length (blobParts b) = 3 * length files + 1
    \<and> (\<forall>i<length files.
          blobParts b ! (2 * i) = localHeaderBytes (entries Map.empty 0 files cvs ! i)
        \<and> blobParts b ! (2 * i + 1) = compressedData (entries Map.empty 0 files cvs ! i)
        \<and> blobParts b ! (2 * length files + i)
            = centralHeaderBytes (entries Map.empty 0 files cvs ! i))
    \<and> last (blobParts b) =
        endRecordBytes (length files)
          (sum_list (map length (map centralHeaderBytes (entries Map.empty 0 files cvs))))
          (sum_list (map entrySize (entries Map.empty 0 files cvs)))
    \<and> length (concat (take (2 * length files) (blobParts b)))
        = sum_list (map entrySize (entries Map.empty 0 files cvs))"
proof -
  let ?es = "entries Map.empty 0 files cvs"
  let ?A = "concat (map (\<lambda>e. [localHeaderBytes e, compressedData e]) ?es)"
  have l: "length cvs = length files"
    using deflateAll_length [OF assms] by simp
  have n: "length ?es = length files"
    by (simp add: length_entries l)
  have la: "length ?A = 2 * length files"
    by (simp only: concat_pairs_length n)
  have head_part: "(?A @ map centralHeaderBytes ?es @ [x]) ! (2 * i) = localHeaderBytes (?es ! i)
      \<and> (?A @ map centralHeaderBytes ?es @ [x]) ! Suc (2 * i) = compressedData (?es ! i)"
    if "i < length files" for i x
  proof -
    from that have "2 * i < length ?A" "2 * i + 1 < length ?A" by (simp_all add: la)
    then show ?thesis
      using concat_pairs_nth [of i ?es localHeaderBytes compressedData] that
      by (simp add: nth_append n)
  qed
  have tail_part: "(?A @ map centralHeaderBytes ?es @ [x]) ! (2 * length files + i)
      = centralHeaderBytes (?es ! i)"
    if "i < length files" for i x
    using that by (simp add: nth_append la n)
  show ?thesis
    by (simp add: createZipFromFiles_success [OF assms] la n head_part tail_part
        length_entry_bytes del: length_concat)
qed

subsection \<open>Offsets, sizes and counts\<close>



text \<open>The archive of the two sample files, part by part.\<close>

lemma zip_alpha_bravo:
  "createZipFromFiles zlibStream [] [alphaFile, bravoFile] =
     (Inr \<lparr>blobParts =
        [[80, 75, 3, 4, 20, 0, 0, 0, 8, 0, 0, 0, 0, 0, 106, 57, 224, 208, 7, 0, 0, 0, 5, 0, 0, 0,
          9, 0, 0, 0, 97, 108, 112, 104, 97, 46, 116, 120, 116],
         [75, 204, 41, 200, 72, 4, 0],
         [80, 75, 3, 4, 20, 0, 0, 0, 8, 0, 0, 0, 0, 0, 137, 184, 155, 9, 7, 0, 0, 0, 5, 0, 0, 0,
          9, 0, 0, 0, 98, 114, 97, 118, 111, 46, 116, 120, 116],
         [75, 42, 74, 44, 203, 7, 0],
         [80, 75, 1, 2, 20, 0, 20, 0, 0, 0, 8, 0, 0, 0, 0, 0, 106, 57, 224, 208, 7, 0, 0, 0,
          5, 0, 0, 0, 9, 0, 0, 0, 8, 0, 0, 0, 0, 0, 0, 0, 0, 0, 0, 0, 0, 0,
          97, 108, 112, 104, 97, 46, 116, 120, 116, 48, 54, 49, 98, 48, 50, 48, 55],
         [80, 75, 1, 2, 20, 0, 20, 0, 0, 0, 8, 0, 0, 0, 0, 0, 137, 184, 155, 9, 7, 0, 0, 0,
          5, 0, 0, 0, 9, 0, 0, 0, 8, 0, 0, 0, 0, 0, 0, 0, 0, 0, 46, 0, 0, 0,
          98, 114, 97, 118, 111, 46, 116, 120, 116, 48, 54, 51, 53, 48, 50, 49, 98],
         [80, 75, 5, 6, 0, 0, 0, 0, 2, 0, 2, 0, 126, 0, 0, 0, 92, 0, 0, 0, 0, 0]],
       type = ''application/zip''\<rparr>, [data alphaFile, data bravoFile])"
  unfolding createZipFromFiles_success [OF zlibStream_alpha_bravo] entries_alpha_bravo
  by (simp add: localHeaderBytes_def centralHeaderBytes_def commentBytes_def hex_alpha
      hex_bravo endRecordBytes_def entrySize_def le16_def le32_def)





subsection \<open>The local file header\<close>

lemma textEncode_ascii:
  "(\<And>c. c \<in> set s \<Longrightarrow> unat c < 0x80) \<Longrightarrow> textEncode s = map (\<lambda>c. of_nat (unat c)) s"
proof (induction s rule: textEncode.induct)
  case 1
  show ?case by simp
next
  case (2 c)
  from "2.prems" [of c] show ?case
    by (simp add: highSurrogate_def lowSurrogate_def utf8_def)
next
  case (3 c d s)
  have c: "unat c < 0x80" using "3.prems" [of c] by simp
  then have n: "\<not> highSurrogate c" "\<not> lowSurrogate c"
    by (simp_all add: highSurrogate_def lowSurrogate_def)
  have "textEncode (d # s) = map (\<lambda>c. of_nat (unat c)) (d # s)"
    using n "3.prems" by (intro "3.IH"(3)) simp_all
  then show ?case using n c by (simp add: utf8_def)
qed

lemma concat_split_pair:
  "k + 1 < length xs \<Longrightarrow>
   concat xs = concat (take k xs) @ xs ! k @ xs ! (k + 1) @ concat (drop (k + 2) xs)"
proof -
  assume h: "k + 1 < length xs"
  then have "xs = take k xs @ xs ! k # drop (Suc k) xs"
    by (simp add: id_take_nth_drop)
  moreover from h have "drop (Suc k) xs = xs ! (k + 1) # drop (k + 2) xs"
    by (simp add: Cons_nth_drop_Suc)
  ultimately have "xs = take k xs @ xs ! k # xs ! (k + 1) # drop (k + 2) xs"
    by simp
  then have "concat xs = concat (take k xs @ xs ! k # xs ! (k + 1) # drop (k + 2) xs)"
    by simp
  then show ?thesis by simp
qed

text \<open>
  Claim C5, as the code has it. When the transform succeeds on every file, the local
  file header of entry \<open>i\<close> is 30 bytes followed by the bytes of the name. Read back
  in little-endian order, its fields are: the signature \<open>0x04034b50\<close> at offset 0,
  version needed 20, flags 0, compression method 8, modification time and date 0, the
  CRC-32 of the content, the compressed size and the uncompressed size modulo \<open>2 ^ 32\<close>,
  the length of the name modulo \<open>2 ^ 16\<close>, and extra field length 0. The raw deflate
  data of the entry is the next part of the blob, so that it follows the header
  immediately in the bytes of the blob.
\<close>

theorem local_header_layout:
  assumes "deflateAll cs w (map data files) = (Inr cvs, w')" and "i < length files"
  shows "\<exists>b. createZipFromFiles cs w files = (Inr b, w')
    \<and> length (blobParts b ! (2 * i)) = 30 + length (encodeFilename (name (files ! i)))
    \<and> getUint32 (blobParts b ! (2 * i)) 0 True = Some 0x04034b50
    \<and> getUint16 (blobParts b ! (2 * i)) 4 True = Some 20
    \<and> getUint16 (blobParts b ! (2 * i)) 6 True = Some 0
    \<and> getUint16 (blobParts b ! (2 * i)) 8 True = Some 8
    \<and> getUint16 (blobParts b ! (2 * i)) 10 True = Some 0
    \<and> getUint16 (blobParts b ! (2 * i)) 12 True = Some 0
    \<and> getUint32 (blobParts b ! (2 * i)) 14 True = Some (unat (calculateCRC32 (data (files ! i))))
    \<and> getUint32 (blobParts b ! (2 * i)) 18 True = Some (length (rawDeflate (cvs ! i)) mod 2 ^ 32)
    \<and> getUint32 (blobParts b ! (2 * i)) 22 True = Some (length (data (files ! i)) mod 2 ^ 32)
    \<and> getUint16 (blobParts b ! (2 * i)) 26 True
        = Some (length (encodeFilename (name (files ! i))) mod 2 ^ 16)
    \<and> getUint16 (blobParts b ! (2 * i)) 28 True = Some 0
    \<and> drop 30 (blobParts b ! (2 * i)) = encodeFilename (name (files ! i))
    \<and> blobParts b ! (2 * i + 1) = rawDeflate (cvs ! i)
    \<and> arrayBuffer b =
        concat (take (2 * i) (blobParts b)) @ blobParts b ! (2 * i) @ blobParts b ! (2 * i + 1)
        @ concat (drop (2 * i + 2) (blobParts b))"
proof -
  let ?e = "entries Map.empty 0 files cvs ! i"
  have l: "length cvs = length files"
    using deflateAll_length [OF assms(1)] by simp
  from createZipFromFiles_parts [OF assms(1)] assms(2) obtain b where
    b: "createZipFromFiles cs w files = (Inr b, w')" and
    len: "length (blobParts b) = 3 * length files + 1" and
    h: "blobParts b ! (2 * i) = localHeaderBytes ?e" and
    d: "blobParts b ! (2 * i + 1) = compressedData ?e"
    by blast
  note e = entries_nth [OF assms(2) l, of Map.empty 0]
  have c: "unat (calculateCRC32 (data (files ! i))) mod 4294967296
           = unat (calculateCRC32 (data (files ! i)))"
    using unsigned_less [of "calculateCRC32 (data (files ! i))", where 'a = nat] by simp
  have "2 * i + 1 < length (blobParts b)" using len assms(2) by simp
  then have a: "arrayBuffer b =
        concat (take (2 * i) (blobParts b)) @ blobParts b ! (2 * i) @ blobParts b ! (2 * i + 1)
        @ concat (drop (2 * i + 2) (blobParts b))"
    unfolding arrayBuffer_def by (rule concat_split_pair)
  have "length (blobParts b ! (2 * i)) = 30 + length (encodeFilename (name (files ! i)))"
    "getUint32 (blobParts b ! (2 * i)) 0 True = Some 0x04034b50"
    "getUint16 (blobParts b ! (2 * i)) 4 True = Some 20"
    "getUint16 (blobParts b ! (2 * i)) 6 True = Some 0"
    "getUint16 (blobParts b ! (2 * i)) 8 True = Some 8"
    "getUint16 (blobParts b ! (2 * i)) 10 True = Some 0"
    "getUint16 (blobParts b ! (2 * i)) 12 True = Some 0"
    "getUint32 (blobParts b ! (2 * i)) 14 True = Some (unat (calculateCRC32 (data (files ! i))))"
    "getUint32 (blobParts b ! (2 * i)) 18 True = Some (length (rawDeflate (cvs ! i)) mod 2 ^ 32)"
    "getUint32 (blobParts b ! (2 * i)) 22 True = Some (length (data (files ! i)) mod 2 ^ 32)"
    "getUint16 (blobParts b ! (2 * i)) 26 True
        = Some (length (encodeFilename (name (files ! i))) mod 2 ^ 16)"
    "getUint16 (blobParts b ! (2 * i)) 28 True = Some 0"
    "drop 30 (blobParts b ! (2 * i)) = encodeFilename (name (files ! i))"
    "blobParts b ! (2 * i + 1) = rawDeflate (cvs ! i)"
    unfolding h d by (simp_all add: localHeader_fields e c)
  with b a show ?thesis by blast
qed

theorem local_header_layout_witness:
  "deflateAll zlibStream [] (map data [alphaFile, bravoFile]) =
     (Inr [alphaZlib, bravoZlib], [data alphaFile, data bravoFile])
   \<and> (1 :: nat) < length [alphaFile, bravoFile]
   \<and> (\<exists>b. createZipFromFiles zlibStream [] [alphaFile, bravoFile] =
            (Inr b, [data alphaFile, data bravoFile])
      \<and> length (blobParts b ! 2) = 39
      \<and> getUint32 (blobParts b ! 2) 0 True = Some 0x04034b50
      \<and> getUint16 (blobParts b ! 2) 8 True = Some 8
      \<and> getUint32 (blobParts b ! 2) 14 True = Some 0x099BB889
      \<and> getUint32 (blobParts b ! 2) 18 True = Some 7
      \<and> getUint32 (blobParts b ! 2) 22 True = Some 5
      \<and> getUint16 (blobParts b ! 2) 26 True = Some 9
      \<and> drop 30 (blobParts b ! 2) = [0x62, 0x72, 0x61, 0x76, 0x6F, 0x2E, 0x74, 0x78, 0x74]
      \<and> blobParts b ! 3 = [75, 42, 74, 44, 203, 7, 0])"
proof -
  have k: "(1 :: nat) < length [alphaFile, bravoFile]" by simp
  have r: "rawDeflate bravoZlib = [75, 42, 74, 44, 203, 7, 0]"
    by (simp add: rawDeflate_def zlibWrapped_def bravoZlib_def)
  have d: "length (data bravoFile) = 5" by (simp add: bravoFile_def)
  from local_header_layout [OF zlibStream_alpha_bravo k] k zlibStream_alpha_bravo
  show ?thesis
    by (auto simp: crc_bravo name_bravo r d)
qed

text \<open>
  With a name of 65536 bytes the name length field of the local header holds 0, not the
  length of the name: \<open>setUint16\<close> keeps the low 16 bits.
\<close>

theorem filename_length_counterexample:
  "getUint16 (returnedParts (createZipFromFiles zlibStream [] [longNameFile]) ! 0) 26 True
     = Some 0
   \<and> length (encodeFilename (name longNameFile)) = 65536"
proof -
  have n: "encodeFilename (name longNameFile) = replicate 65536 0x61"
    unfolding encodeFilename_def longNameFile_def
    by (subst textEncode_ascii) simp_all
  have d: "deflateAll zlibStream [] (map data [longNameFile]) = (Inr [emptyZlib], [[]])"
    by (simp add: compressBuffer_def zlibStream_def longNameFile_def alphaFile_def
        bravoFile_def arrayBuffer_def)
  have l: "length [emptyZlib] = length [longNameFile]" by simp
  have k: "(0 :: nat) < length [longNameFile]" by simp
  from createZipFromFiles_parts [OF d] k obtain b where
    b: "createZipFromFiles zlibStream [] [longNameFile] = (Inr b, [[]])" and
    h: "blobParts b ! (2 * 0)
          = localHeaderBytes (entries Map.empty 0 [longNameFile] [emptyZlib] ! 0)"
    by blast
  from h have "getUint16 (blobParts b ! 0) 26 True
      = Some (length (nameBytes (entries Map.empty 0 [longNameFile] [emptyZlib] ! 0)) mod 65536)"
    by (simp only: mult_0_right localHeader_fields)
  also have "nameBytes (entries Map.empty 0 [longNameFile] [emptyZlib] ! 0)
      = encodeFilename (name longNameFile)"
    using entries_nth [OF k l, of Map.empty 0] by simp
  finally show ?thesis using b by (simp add: returnedParts_def n)
qed

subsection \<open>The comment of a central directory header\<close>

lemma hexDigit_unat: "d < 16 \<Longrightarrow> unat (hexDigit d) = (if d < 10 then 48 + d else 87 + d)"
proof -
  assume d: "d < 16"
  have u: "unat (of_nat n :: 16 word) = n" if "n < 65536" for n
    using that by (simp add: unat_of_nat)
  from d have "unat (of_nat (48 + d) :: 16 word) = 48 + d"
    "unat (of_nat (87 + d) :: 16 word) = 87 + d"
    by (simp_all only: u)
  then show ?thesis by (simp only: hexDigit_def if_distrib [of unat] if_cancel)
qed

lemma hexDigit_ascii: "d < 16 \<Longrightarrow> unat (hexDigit d) < 0x80"
  by (simp add: hexDigit_unat)

lemma hexDigit_byte:
  "d < 16 \<Longrightarrow> lowerHexDigit (of_nat (unat (hexDigit d)))
     \<and> digitValue (of_nat (unat (hexDigit d))) = d"
proof -
  assume d: "d < 16"
  have u: "unat (of_nat n :: byte) = n" if "n < 256" for n
    using that by (simp add: unat_of_nat)
  from d have "unat (of_nat (unat (hexDigit d)) :: byte) = (if d < 10 then 48 + d else 87 + d)"
    by (simp only: hexDigit_unat) (simp add: u del: of_nat_add)
  with d show ?thesis by (simp add: lowerHexDigit_def digitValue_def)
qed

lemma toString16_digits: "c \<in> set (toString16 n) \<Longrightarrow> \<exists>d<16. c = hexDigit d"
proof (induction n rule: toString16.induct)
  case (1 n)
  show ?case
  proof (cases "n < 16")
    case True
    with "1.prems" show ?thesis by (auto simp: toString16.simps [of n])
  next
    case False
    with "1.prems" have "c \<in> set (toString16 (n div 16)) \<or> c = hexDigit (n mod 16)"
      by (auto simp: toString16.simps [of n])
    then show ?thesis
    proof
      assume "c \<in> set (toString16 (n div 16))"
      with False show ?thesis by (intro "1.IH") simp_all
    next
      assume "c = hexDigit (n mod 16)"
      moreover have "n mod 16 < 16" by simp
      ultimately show ?thesis by blast
    qed
  qed
qed

lemma hexValue_snoc: "hexValue (s @ [c]) = 16 * hexValue s + digitValue c"
  by (simp add: hexValue_def)

lemma toString16_value: "hexValue (map (\<lambda>c. of_nat (unat c)) (toString16 n)) = n"
proof (induction n rule: toString16.induct)
  case (1 n)
  show ?case
  proof (cases "n < 16")
    case True
    then show ?thesis
      using hexDigit_byte [of n] by (simp add: toString16.simps [of n] hexValue_def)
  next
    case False
    have "n mod 16 < 16" by simp
    then have "digitValue (of_nat (unat (hexDigit (n mod 16)))) = n mod 16"
      using hexDigit_byte by blast
    with False "1.IH" show ?thesis
      by (simp add: toString16.simps [of n] hexValue_snoc)
  qed
qed

lemma toString16_length: "n < 16 ^ k \<Longrightarrow> 0 < k \<Longrightarrow> length (toString16 n) \<le> k"
proof (induction n arbitrary: k rule: toString16.induct)
  case (1 n)
  show ?case
  proof (cases "n < 16")
    case True
    with "1.prems" show ?thesis by (simp add: toString16.simps [of n] Suc_leI)
  next
    case False
    from "1.prems" obtain j where k: "k = Suc j" by (cases k) auto
    with "1.prems" False have j: "0 < j" by (cases j) auto
    from "1.prems" k have "n div 16 < 16 ^ j"
      by (simp add: less_mult_imp_div_less mult.commute)
    with False j have "length (toString16 (n div 16)) \<le> j" by (intro "1.IH") simp_all
    with False k show ?thesis by (simp add: toString16.simps [of n])
  qed
qed

lemma hexValue_zeros: "hexValue (replicate m 0x30 @ s) = hexValue s"
proof -
  have "foldl (\<lambda>v c. 16 * v + digitValue c) 0 (replicate m 0x30) = 0"
    by (induction m) (simp_all add: digitValue_def)
  then show ?thesis by (simp add: hexValue_def)
qed

lemma comment_of_adler32:
  assumes "a < 2 ^ 32"
  shows "length (textEncode (padStart (toString16 a) 8 0x30)) = 8"
    and "\<And>c. c \<in> set (textEncode (padStart (toString16 a) 8 0x30)) \<Longrightarrow> lowerHexDigit c"
    and "hexValue (textEncode (padStart (toString16 a) 8 0x30)) = a"
proof -
  let ?s = "padStart (toString16 a) 8 0x30"
  have len: "length (toString16 a) \<le> 8"
    using assms by (intro toString16_length) simp_all
  have ascii: "unat c < 0x80" if "c \<in> set ?s" for c
    using that toString16_digits [of c a] hexDigit_ascii by (auto simp: padStart_def)
  have enc: "textEncode ?s = map (\<lambda>c. of_nat (unat c)) ?s"
    by (rule textEncode_ascii) (rule ascii)
  note enc' = enc [unfolded padStart_def]
  show "length (textEncode ?s) = 8"
    using len by (simp add: enc' padStart_def)
  show "lowerHexDigit c" if "c \<in> set (textEncode ?s)" for c
  proof -
    from that have "c = 0x30 \<or> (\<exists>x \<in> set (toString16 a). c = of_nat (unat x))"
      by (auto simp: enc' padStart_def)
    then show ?thesis
    proof
      assume "c = 0x30"
      then show ?thesis by (simp add: lowerHexDigit_def)
    next
      assume "\<exists>x \<in> set (toString16 a). c = of_nat (unat x)"
      then obtain d where "d < 16" "c = of_nat (unat (hexDigit d))"
        using toString16_digits by blast
      then show ?thesis using hexDigit_byte by blast
    qed
  qed
  have "hexValue (textEncode ?s)
        = hexValue (replicate (8 - length (toString16 a)) 0x30
                    @ map (\<lambda>c. of_nat (unat c)) (toString16 a))"
    by (simp add: enc' padStart_def)
  then show "hexValue (textEncode ?s) = a"
    by (simp only: hexValue_zeros toString16_value)
qed

lemma adler32Trailer_less: "adler32Trailer cv < 2 ^ 32"
proof -
  have "unat x < 256" for x :: byte
    using unsigned_less [of x, where 'a = nat] by simp
  from this [of "cv ! (length cv - 4)"] this [of "cv ! (length cv - 3)"]
    this [of "cv ! (length cv - 2)"] this [of "cv ! (length cv - 1)"]
  show ?thesis by (simp add: adler32Trailer_def Let_def)
qed

lemma entries_adler32_less:
  "(\<And>k a. m k = Some a \<Longrightarrow> a < 2 ^ 32) \<Longrightarrow> e \<in> set (entries m off fs cvs) \<Longrightarrow>
   adler32 e < 2 ^ 32"
proof (induction m off fs cvs rule: entries.induct)
  case (1 m off f fs cv cvs)
  have inv: "a < 2 ^ 32" if "mapAfter m f cv k = Some a" for k a
    using that "1.prems"(1) adler32Trailer_less [of cv]
    by (auto simp: mapAfter_def split: if_splits)
  from "1.prems"(2) have
    "e = entryOf m off f cv
     \<or> e \<in> set (entries (mapAfter m f cv) (off + entrySize (entryOf m off f cv)) fs cvs)"
    by simp
  then show ?case
  proof
    assume "e = entryOf m off f cv"
    then show ?thesis
      using inv [of "name f"] by (auto simp: entryOf_def split: option.splits)
  next
    assume "e \<in> set (entries (mapAfter m f cv) (off + entrySize (entryOf m off f cv)) fs cvs)"
    with inv show ?thesis by (intro "1.IH") blast+
  qed
qed simp_all

lemma entries_adler32_wrapped:
  "i < length fs \<Longrightarrow> length cvs = length fs \<Longrightarrow> zlibWrapped (cvs ! i) \<Longrightarrow>
   adler32 (entries m off fs cvs ! i) = adler32Trailer (cvs ! i)"
proof (induction m off fs cvs arbitrary: i rule: entries.induct)
  case (1 m off f fs cv cvs)
  show ?case
  proof (cases i)
    case 0
    with "1.prems" show ?thesis by (simp add: entryOf_def mapAfter_def)
  next
    case (Suc k)
    with "1.prems" show ?thesis by (simp add: "1.IH")
  qed
qed simp_all

text \<open>
  Claim C6. When the transform succeeds on every file, the central directory header of
  entry \<open>i\<close> is 46 bytes, the bytes of the name, and a comment of exactly 8 bytes.
  Every byte of the comment is the ASCII code of a digit or of a lower-case letter a to
  f, and the number the comment denotes in base 16 is the Adler-32 value the loop has
  for the entry; so the comment is that value in lower-case hexadecimal, padded with
  zeros on the left to 8 characters. The comment length field of the header holds 8,
  the length of the comment. The Adler-32 value of the entry is below \<open>2 ^ 32\<close>,
  and for an entry whose compressed stream has the zlib wrapper it is the trailer of
  that stream.
\<close>

theorem central_header_comment:
  assumes "deflateAll cs w (map data files) = (Inr cvs, w')" and "i < length files"
  shows "\<exists>b. createZipFromFiles cs w files = (Inr b, w')
    \<and> length (blobParts b ! (2 * length files + i))
        = 46 + length (encodeFilename (name (files ! i))) + 8
    \<and> take (length (encodeFilename (name (files ! i))))
           (drop 46 (blobParts b ! (2 * length files + i)))
        = encodeFilename (name (files ! i))
    \<and> length (drop (46 + length (encodeFilename (name (files ! i))))
                 (blobParts b ! (2 * length files + i))) = 8
    \<and> (\<forall>c \<in> set (drop (46 + length (encodeFilename (name (files ! i))))
                      (blobParts b ! (2 * length files + i))). lowerHexDigit c)
    \<and> hexValue (drop (46 + length (encodeFilename (name (files ! i))))
                   (blobParts b ! (2 * length files + i)))
        = adler32 (entries Map.empty 0 files cvs ! i)
    \<and> getUint16 (blobParts b ! (2 * length files + i)) 32 True = Some 8
    \<and> adler32 (entries Map.empty 0 files cvs ! i) < 2 ^ 32
    \<and> (zlibWrapped (cvs ! i) \<longrightarrow>
          adler32 (entries Map.empty 0 files cvs ! i) = adler32Trailer (cvs ! i))"
proof -
  let ?e = "entries Map.empty 0 files cvs ! i"
  let ?n = "encodeFilename (name (files ! i))"
  have l: "length cvs = length files"
    using deflateAll_length [OF assms(1)] by simp
  from createZipFromFiles_parts [OF assms(1)] assms(2) obtain b where
    b: "createZipFromFiles cs w files = (Inr b, w')" and
    h: "blobParts b ! (2 * length files + i) = centralHeaderBytes ?e"
    by blast
  have n: "nameBytes ?e = ?n"
    using entries_nth [OF assms(2) l, of Map.empty 0] by simp
  have "?e \<in> set (entries Map.empty 0 files cvs)"
    using assms(2) l by (simp add: length_entries)
  then have a: "adler32 ?e < 2 ^ 32"
    by (rule entries_adler32_less [rotated]) simp
  note c = comment_of_adler32 [OF a]
  have d: "drop (46 + length ?n) (centralHeaderBytes ?e) = commentBytes ?e"
    using centralHeader_fields(9) [of ?e]
    by (simp add: n drop_drop [symmetric] add.commute del: drop_drop)
  have t: "take (length ?n) (drop 46 (centralHeaderBytes ?e)) = ?n"
    by (simp add: centralHeader_fields(9) n)
  have cl: "length (commentBytes ?e) = 8"
    using c(1) by (simp add: commentBytes_def)
  have "length (blobParts b ! (2 * length files + i)) = 46 + length ?n + 8"
    "take (length ?n) (drop 46 (blobParts b ! (2 * length files + i))) = ?n"
    "length (drop (46 + length ?n) (blobParts b ! (2 * length files + i))) = 8"
    "\<forall>c \<in> set (drop (46 + length ?n) (blobParts b ! (2 * length files + i))). lowerHexDigit c"
    "hexValue (drop (46 + length ?n) (blobParts b ! (2 * length files + i))) = adler32 ?e"
    "getUint16 (blobParts b ! (2 * length files + i)) 32 True = Some 8"
    unfolding h d using c cl t
    by (simp_all add: centralHeader_fields n commentBytes_def)
  moreover have "zlibWrapped (cvs ! i) \<longrightarrow> adler32 ?e = adler32Trailer (cvs ! i)"
    using entries_adler32_wrapped [OF assms(2) l] by blast
  ultimately show ?thesis using b a by blast
qed

theorem central_header_comment_witness:
  "deflateAll zlibStream [] (map data [alphaFile, bravoFile]) =
     (Inr [alphaZlib, bravoZlib], [data alphaFile, data bravoFile])
   \<and> (1 :: nat) < length [alphaFile, bravoFile]
   \<and> (\<exists>b. createZipFromFiles zlibStream [] [alphaFile, bravoFile] =
            (Inr b, [data alphaFile, data bravoFile])
      \<and> length (blobParts b ! 5) = 63
      \<and> drop 55 (blobParts b ! 5) = [0x30, 0x36, 0x33, 0x35, 0x30, 0x32, 0x31, 0x62]
      \<and> hexValue (drop 55 (blobParts b ! 5)) = 0x0635021B
      \<and> getUint16 (blobParts b ! 5) 32 True = Some 8
      \<and> adler32Trailer bravoZlib = 0x0635021B)"
proof -
  have k: "(1 :: nat) < length [alphaFile, bravoFile]" by simp
  have z: "zlibWrapped bravoZlib"
    by (simp add: zlibWrapped_def bravoZlib_def)
  from central_header_comment [OF zlibStream_alpha_bravo k] obtain b where
    b: "createZipFromFiles zlibStream [] [alphaFile, bravoFile] =
          (Inr b, [data alphaFile, data bravoFile])" and
    v: "hexValue (drop (46 + length (encodeFilename (name ([alphaFile, bravoFile] ! 1))))
                   (blobParts b ! (2 * length [alphaFile, bravoFile] + 1)))
        = adler32 (entries Map.empty 0 [alphaFile, bravoFile] [alphaZlib, bravoZlib] ! 1)" and
    g: "getUint16 (blobParts b ! (2 * length [alphaFile, bravoFile] + 1)) 32 True = Some 8" and
    t: "zlibWrapped ([alphaZlib, bravoZlib] ! 1) \<longrightarrow>
          adler32 (entries Map.empty 0 [alphaFile, bravoFile] [alphaZlib, bravoZlib] ! 1)
            = adler32Trailer ([alphaZlib, bravoZlib] ! 1)"
    by blast
  have a: "adler32 (entries Map.empty 0 [alphaFile, bravoFile] [alphaZlib, bravoZlib] ! 1)
      = 0x0635021B"
    unfolding entries_alpha_bravo by simp
  from v have v': "hexValue (drop 55 (blobParts b ! 5)) = 0x0635021B"
    unfolding a by (simp add: name_bravo)
  from t z have t': "adler32Trailer bravoZlib = 0x0635021B"
    unfolding a by simp
  from g have g': "getUint16 (blobParts b ! 5) 32 True = Some 8" by simp
  from b zip_alpha_bravo have "length (blobParts b ! 5) = 63"
    "drop 55 (blobParts b ! 5) = [0x30, 0x36, 0x33, 0x35, 0x30, 0x32, 0x31, 0x62]"
    by auto
  with b v' t' g' k zlibStream_alpha_bravo show ?thesis by blast
qed

subsection \<open>The two paths of \<open>compress\<close>\<close>

text \<open>
  Claim C7. Given an array of files whose compression succeeds, \<open>compress\<close> returns
  what the archive builder returns: a blob of type \<open>application/zip\<close> whose bytes are
  the ZIP archive of the files, that is, for each file in order its local header and its
  raw deflate data, then the central directory headers, then the end of central
  directory record, with one entry for each file under its encoded name. Given a single
  file, it returns a blob of the chunks of the compression stream as they came, with the
  empty type and with no header around them; and when that stream fails it throws the
  error of the stream.
\<close>

theorem compress_dispatch:
  "compress cs w (FileArray files) = createZipFromFiles cs w files
   \<and> (deflateAll cs w (map data files) = (Inr cvs, w') \<longrightarrow>
        (\<exists>b. compress cs w (FileArray files) = (Inr b, w') \<and> type b = ''application/zip''
           \<and> arrayBuffer b =
               concat (map (\<lambda>e. localHeaderBytes e @ compressedData e)
                         (entries Map.empty 0 files cvs))
               @ concat (map centralHeaderBytes (entries Map.empty 0 files cvs))
               @ endRecordBytes (length files)
                   (sum_list (map length (map centralHeaderBytes
                      (entries Map.empty 0 files cvs))))
                   (sum_list (map entrySize (entries Map.empty 0 files cvs)))
           \<and> length (entries Map.empty 0 files cvs) = length files
           \<and> map nameBytes (entries Map.empty 0 files cvs)
               = map (\<lambda>f. encodeFilename (name f)) files
           \<and> map compressedData (entries Map.empty 0 files cvs) = map rawDeflate cvs
           \<and> blobParts b \<noteq> []
           \<and> getUint32 (last (blobParts b)) 0 True = Some 0x06054b50))
   \<and> (cs w (data file) = (Stream chunks None, w1) \<longrightarrow>
        compress cs w (SingleFile file) = (Inr \<lparr>blobParts = chunks, type = ''''\<rparr>, w1)
        \<and> arrayBuffer \<lparr>blobParts = chunks, type = ''''\<rparr> = concat chunks)
   \<and> (cs w (data file) = (Stream chunks (Some err), w1) \<longrightarrow>
        compress cs w (SingleFile file) = (Inl (StreamError err), w1))"
proof -
  have array: "\<exists>b. compress cs w (FileArray files) = (Inr b, w') \<and> type b = ''application/zip''
           \<and> arrayBuffer b =
               concat (map (\<lambda>e. localHeaderBytes e @ compressedData e)
                         (entries Map.empty 0 files cvs))
               @ concat (map centralHeaderBytes (entries Map.empty 0 files cvs))
               @ endRecordBytes (length files)
                   (sum_list (map length (map centralHeaderBytes
                      (entries Map.empty 0 files cvs))))
                   (sum_list (map entrySize (entries Map.empty 0 files cvs)))
           \<and> length (entries Map.empty 0 files cvs) = length files
           \<and> map nameBytes (entries Map.empty 0 files cvs)
               = map (\<lambda>f. encodeFilename (name f)) files
           \<and> map compressedData (entries Map.empty 0 files cvs) = map rawDeflate cvs
           \<and> blobParts b \<noteq> []
           \<and> getUint32 (last (blobParts b)) 0 True = Some 0x06054b50"
    if d: "deflateAll cs w (map data files) = (Inr cvs, w')"
  proof -
    have l: "length cvs = length files"
      using deflateAll_length [OF d] by simp
    show ?thesis
      by (simp add: createZipFromFiles_success [OF d] arrayBuffer_def concat_pairs_bytes
          length_entries l map_entries endRecord_fields)
  qed
  have single: "compress cs w (SingleFile file) = (Inr \<lparr>blobParts = chunks, type = ''''\<rparr>, w1)
        \<and> arrayBuffer \<lparr>blobParts = chunks, type = ''''\<rparr> = concat chunks"
    if "cs w (data file) = (Stream chunks None, w1)"
    using that by (simp add: compressSingleFile_def arrayBuffer_def)
  have failed: "compress cs w (SingleFile file) = (Inl (StreamError err), w1)"
    if "cs w (data file) = (Stream chunks (Some err), w1)"
    using that by (simp add: compressSingleFile_def)
  have "compress cs w (FileArray files) = createZipFromFiles cs w files" by simp
  with array single failed show ?thesis by blast
qed

theorem compress_dispatch_witness:
  "deflateAll zlibStream [] (map data [alphaFile, bravoFile]) =
     (Inr [alphaZlib, bravoZlib], [data alphaFile, data bravoFile])
   \<and> (\<exists>b. compress zlibStream [] (FileArray [alphaFile, bravoFile]) =
            (Inr b, [data alphaFile, data bravoFile])
      \<and> type b = ''application/zip''
      \<and> arrayBuffer b =
          [80, 75, 3, 4, 20, 0, 0, 0, 8, 0, 0, 0, 0, 0, 106, 57, 224, 208, 7, 0, 0, 0, 5, 0, 0, 0,
           9, 0, 0, 0, 97, 108, 112, 104, 97, 46, 116, 120, 116,
           75, 204, 41, 200, 72, 4, 0,
           80, 75, 3, 4, 20, 0, 0, 0, 8, 0, 0, 0, 0, 0, 137, 184, 155, 9, 7, 0, 0, 0, 5, 0, 0, 0,
           9, 0, 0, 0, 98, 114, 97, 118, 111, 46, 116, 120, 116,
           75, 42, 74, 44, 203, 7, 0,
           80, 75, 1, 2, 20, 0, 20, 0, 0, 0, 8, 0, 0, 0, 0, 0, 106, 57, 224, 208, 7, 0, 0, 0,
           5, 0, 0, 0, 9, 0, 0, 0, 8, 0, 0, 0, 0, 0, 0, 0, 0, 0, 0, 0, 0, 0,
           97, 108, 112, 104, 97, 46, 116, 120, 116, 48, 54, 49, 98, 48, 50, 48, 55,
           80, 75, 1, 2, 20, 0, 20, 0, 0, 0, 8, 0, 0, 0, 0, 0, 137, 184, 155, 9, 7, 0, 0, 0,
           5, 0, 0, 0, 9, 0, 0, 0, 8, 0, 0, 0, 0, 0, 0, 0, 0, 0, 46, 0, 0, 0,
           98, 114, 97, 118, 111, 46, 116, 120, 116, 48, 54, 51, 53, 48, 50, 49, 98,
           80, 75, 5, 6, 0, 0, 0, 0, 2, 0, 2, 0, 126, 0, 0, 0, 92, 0, 0, 0, 0, 0])
   \<and> zlibStream [] (data alphaFile) =
       (Stream [[120, 156], [75, 204, 41, 200, 72, 4, 0, 6, 27, 2, 7]] None, [data alphaFile])
   \<and> compress zlibStream [] (SingleFile alphaFile) =
       (Inr \<lparr>blobParts = [[120, 156], [75, 204, 41, 200, 72, 4, 0, 6, 27, 2, 7]], type = ''''\<rparr>,
        [data alphaFile])
   \<and> arrayBuffer \<lparr>blobParts = [[120, 156], [75, 204, 41, 200, 72, 4, 0, 6, 27, 2, 7]],
                   type = ''''\<rparr> = [120, 156, 75, 204, 41, 200, 72, 4, 0, 6, 27, 2, 7]
   \<and> zlibStream [] (data brokenFile) =
       (Stream [[120, 156]] (Some ''aborted''), [data brokenFile])
   \<and> compress zlibStream [] (SingleFile brokenFile) =
       (Inl (StreamError ''aborted''), [data brokenFile])"
proof -
  have s: "zlibStream [] (data alphaFile) =
       (Stream [[120, 156], [75, 204, 41, 200, 72, 4, 0, 6, 27, 2, 7]] None, [data alphaFile])"
    by (simp add: zlibStream_def alphaZlib_def)
  have f: "zlibStream [] (data brokenFile) =
       (Stream [[120, 156]] (Some ''aborted''), [data brokenFile])"
    by (simp add: zlibStream_def alphaZlib_def alphaFile_def bravoFile_def brokenFile_def)
  have a: "arrayBuffer \<lparr>blobParts = [[120, 156], [75, 204, 41, 200, 72, 4, 0, 6, 27, 2, 7]],
                   type = ''''\<rparr> = [120, 156, 75, 204, 41, 200, 72, 4, 0, 6, 27, 2, 7]"
    by (simp add: arrayBuffer_def)
  note t = compress_dispatch [of zlibStream "[]" "[alphaFile, bravoFile]"
      "[alphaZlib, bravoZlib]" "[data alphaFile, data bravoFile]" alphaFile
      "[[120, 156], [75, 204, 41, 200, 72, 4, 0, 6, 27, 2, 7]]" "[data alphaFile]"]
  note u = compress_dispatch [of zlibStream "[]" "[alphaFile, bravoFile]"
      "[alphaZlib, bravoZlib]" "[data alphaFile, data bravoFile]" brokenFile
      "[[120, 156]]" "[data brokenFile]" "''aborted''"]
  from t zlibStream_alpha_bravo obtain b where
    c: "compress zlibStream [] (FileArray [alphaFile, bravoFile]) =
          (Inr b, [data alphaFile, data bravoFile])" and
    ty: "type b = ''application/zip''" and
    ab: "arrayBuffer b =
               concat (map (\<lambda>e. localHeaderBytes e @ compressedData e)
                         (entries Map.empty 0 [alphaFile, bravoFile] [alphaZlib, bravoZlib]))
               @ concat (map centralHeaderBytes
                           (entries Map.empty 0 [alphaFile, bravoFile] [alphaZlib, bravoZlib]))
               @ endRecordBytes (length [alphaFile, bravoFile])
                   (sum_list (map length (map centralHeaderBytes
                      (entries Map.empty 0 [alphaFile, bravoFile] [alphaZlib, bravoZlib]))))
                   (sum_list (map entrySize
                      (entries Map.empty 0 [alphaFile, bravoFile] [alphaZlib, bravoZlib])))"
    by blast
  note ab [unfolded entries_alpha_bravo]
  then have bytes: "arrayBuffer b =
          [80, 75, 3, 4, 20, 0, 0, 0, 8, 0, 0, 0, 0, 0, 106, 57, 224, 208, 7, 0, 0, 0, 5, 0, 0, 0,
           9, 0, 0, 0, 97, 108, 112, 104, 97, 46, 116, 120, 116,
           75, 204, 41, 200, 72, 4, 0,
           80, 75, 3, 4, 20, 0, 0, 0, 8, 0, 0, 0, 0, 0, 137, 184, 155, 9, 7, 0, 0, 0, 5, 0, 0, 0,
           9, 0, 0, 0, 98, 114, 97, 118, 111, 46, 116, 120, 116,
           75, 42, 74, 44, 203, 7, 0,
           80, 75, 1, 2, 20, 0, 20, 0, 0, 0, 8, 0, 0, 0, 0, 0, 106, 57, 224, 208, 7, 0, 0, 0,
           5, 0, 0, 0, 9, 0, 0, 0, 8, 0, 0, 0, 0, 0, 0, 0, 0, 0, 0, 0, 0, 0,
           97, 108, 112, 104, 97, 46, 116, 120, 116, 48, 54, 49, 98, 48, 50, 48, 55,
           80, 75, 1, 2, 20, 0, 20, 0, 0, 0, 8, 0, 0, 0, 0, 0, 137, 184, 155, 9, 7, 0, 0, 0,
           5, 0, 0, 0, 9, 0, 0, 0, 8, 0, 0, 0, 0, 0, 0, 0, 0, 0, 46, 0, 0, 0,
           98, 114, 97, 118, 111, 46, 116, 120, 116, 48, 54, 51, 53, 48, 50, 49, 98,
           80, 75, 5, 6, 0, 0, 0, 0, 2, 0, 2, 0, 126, 0, 0, 0, 92, 0, 0, 0, 0, 0]"
    by (simp add: localHeaderBytes_def centralHeaderBytes_def commentBytes_def hex_alpha
        hex_bravo endRecordBytes_def entrySize_def le16_def le32_def)
  from t s have single:
    "compress zlibStream [] (SingleFile alphaFile) =
       (Inr \<lparr>blobParts = [[120, 156], [75, 204, 41, 200, 72, 4, 0, 6, 27, 2, 7]], type = ''''\<rparr>,
        [data alphaFile])"
    by blast
  from u f have failed:
    "compress zlibStream [] (SingleFile brokenFile) =
       (Inl (StreamError ''aborted''), [data brokenFile])"
    by blast
  from c ty bytes s single a f failed zlibStream_alpha_bravo show ?thesis by blast
qed

subsection \<open>The entry of an empty file\<close>












subsection \<open>Stripping the zlib wrapper\<close>









end
